theory Spec2Isabelle
  imports Main
begin

section \<open>The enforces-shorthand rule of eslint-plugin-tailwindcss\<close>

text \<open>
  A shallow embedding of \<^verbatim>\<open>src/lib/rules/enforces-shorthand.js\<close>: the lookup
  \<^verbatim>\<open>getBodyByShorthand\<close> and the analysis \<^verbatim>\<open>parseForShorthandCandidates\<close> from the
  point where the text of one segment is known (line 165) to its last report (line 328).

  JavaScript strings are modelled as \<^typ>\<open>string\<close>, one \<^typ>\<open>char\<close> per code unit below 256.
  The objects returned by the class name parser are mutated in place by the rule and are
  reachable through several arrays at once, so they live in an explicit heap: a reference
  is the position of the object in \<^verbatim>\<open>parsed\<close>, and the arrays \<^verbatim>\<open>sameType\<close>,
  \<^verbatim>\<open>sameVariantAndValue\<close>, \<^verbatim>\<open>toBeKept\<close> and \<^verbatim>\<open>validated\<close> hold references.
\<close>

subsection \<open>Data\<close>

text \<open>
  The fields of a parsed class name that the rule reads or writes. The parser is in another
  file; every field is taken to hold a string, as the rule's own string operations on
  \<^verbatim>\<open>variants\<close> and \<^verbatim>\<open>value\<close> expect (\<open>value'\<close> is the field \<^verbatim>\<open>value\<close>).
\<close>

record classname =
  name :: string
  leading :: string
  trailing :: string
  parentType :: string
  shorthand :: string
  value' :: string
  variants :: string

text \<open>
  The groups of \<^verbatim>\<open>targetGroups\<close>: a group has a type and members (the property
  families), a family has a type and members, and each of those has a body and a shorthand.
  The table itself comes from \<^verbatim>\<open>../config/groups\<close> and is a parameter here.
\<close>

record entry =
  e_type :: string
  e_body :: string
  e_shorthand :: string

record family =
  f_type :: string
  f_members :: "entry list"

record group =
  g_type :: string
  g_members :: "family list"

type_synonym ref = nat

type_synonym trouble = "string list \<times> string"

text \<open>The mutable state of lines 191 to 295: the parsed objects, \<^verbatim>\<open>validated\<close> and \<^verbatim>\<open>troubles\<close>.\<close>

record rule_state =
  heap :: "classname list"
  validated :: "ref list"
  troubles :: "trouble list"

text \<open>
  What lines 115 to 163 leave behind for one segment: the text, the range of the fix,
  the prefix and the suffix of a template element, and the \<^verbatim>\<open>trim\<close> flag.
\<close>

record segment =
  originalClassNamesValue :: string
  start :: int
  end' :: int
  prefix :: string
  suffix :: string
  trim :: bool

text \<open>
  One call of \<^verbatim>\<open>context.report\<close>. The fix is a closure over the variable
  \<^verbatim>\<open>validatedClassNamesValue\<close>; \<open>fix_text\<close> is the value of that variable when the
  report is made, which is what the fix returns when the host calls it at once.
\<close>

record report =
  classnames :: string
  shorthand_name :: string
  fix_range :: "int \<times> int"
  fix_text :: string

text \<open>
  The result of the analysis of one segment: the objects that were parsed, the reports in
  the order they were made, and the last value of \<^verbatim>\<open>validatedClassNamesValue\<close>, which
  is what every fix returns when the host calls it after the analysis has returned. On the
  early return of line 182 the variable does not exist yet, and the text is empty here.
\<close>

record outcome =
  parsed_objects :: "classname list"
  reports :: "report list"
  final_text :: string

subsection \<open>Strings and arrays of JavaScript\<close>

definition isWhiteSpace :: "char \<Rightarrow> bool" where
  "isWhiteSpace c = (c \<in> set [CHR 0x09, CHR 0x0A, CHR 0x0B, CHR 0x0C, CHR 0x0D, CHR 0x20, CHR 0xA0])"

text \<open>The regular expression \<^verbatim>\<open>/^(\s)*$/\<close>.\<close>

definition spacesOnly :: "string \<Rightarrow> bool" where
  "spacesOnly s = list_all isWhiteSpace s"

text \<open>\<^verbatim>\<open>String.prototype.trim\<close>.\<close>

definition trim_string :: "string \<Rightarrow> string" where
  "trim_string s = rev (dropWhile isWhiteSpace (rev (dropWhile isWhiteSpace s)))"

text \<open>\<^verbatim>\<open>Array.prototype.join\<close>.\<close>

fun join :: "string \<Rightarrow> string list \<Rightarrow> string" where
  "join sep [] = []"
| "join sep [x] = x"
| "join sep (x # y # ys) = x @ sep @ join sep (y # ys)"

text \<open>\<^verbatim>\<open>Array.prototype.includes\<close>.\<close>

definition array_includes :: "'a list \<Rightarrow> 'a \<Rightarrow> bool" where
  "array_includes xs x = (x \<in> set xs)"

subsection \<open>getBodyByShorthand (lines 93 to 106)\<close>

definition findByMemberType :: "string \<Rightarrow> group \<Rightarrow> family option" where
  "findByMemberType pt obj = find (\<lambda>m. f_type m = pt) (g_members obj)"

definition getBodyByShorthand :: "group list \<Rightarrow> string \<Rightarrow> string \<Rightarrow> string" where
  "getBodyByShorthand targetGroups pt sh =
     (case find (\<lambda>obj. findByMemberType pt obj \<noteq> None) targetGroups of
        None \<Rightarrow> ''''
      | Some mainGroup \<Rightarrow>
          (case find (\<lambda>m. f_type m = pt) (g_members mainGroup) of
             None \<Rightarrow> ''''
           | Some typeGroup \<Rightarrow>
               (case find (\<lambda>m. e_shorthand m = sh) (f_members typeGroup) of
                  None \<Rightarrow> ''''
                | Some t \<Rightarrow> e_body t)))"

subsection \<open>The merge of one set of class names (lines 213 to 290)\<close>

text \<open>\<^verbatim>\<open>sameVariantAndValue.some((c) => cs.includes(c.shorthand))\<close>, read through the heap.\<close>

definition someShorthand :: "classname list \<Rightarrow> ref list \<Rightarrow> string list \<Rightarrow> bool" where
  "someShorthand h S cs = list_ex (\<lambda>c. array_includes cs (shorthand (h ! c))) S"

definition supportCorners :: "string \<Rightarrow> bool" where
  "supportCorners pt = array_includes [''Border Radius''] pt"

definition hasTL :: "string \<Rightarrow> classname list \<Rightarrow> ref list \<Rightarrow> bool" where
  "hasTL pt h S = (supportCorners pt \<and> someShorthand h S [''tl'', ''t'', ''all''])"

definition hasTR :: "string \<Rightarrow> classname list \<Rightarrow> ref list \<Rightarrow> bool" where
  "hasTR pt h S = (supportCorners pt \<and> someShorthand h S [''tr'', ''t'', ''all''])"

definition hasBR :: "string \<Rightarrow> classname list \<Rightarrow> ref list \<Rightarrow> bool" where
  "hasBR pt h S = (supportCorners pt \<and> someShorthand h S [''br'', ''b'', ''all''])"

definition hasBL :: "string \<Rightarrow> classname list \<Rightarrow> ref list \<Rightarrow> bool" where
  "hasBL pt h S = (supportCorners pt \<and> someShorthand h S [''bl'', ''b'', ''all''])"

definition hasT :: "string \<Rightarrow> classname list \<Rightarrow> ref list \<Rightarrow> bool" where
  "hasT pt h S = (someShorthand h S [''t''] \<or> (hasTL pt h S \<and> hasTR pt h S))"

definition hasR :: "string \<Rightarrow> classname list \<Rightarrow> ref list \<Rightarrow> bool" where
  "hasR pt h S = (someShorthand h S [''r''] \<or> (hasTR pt h S \<and> hasBR pt h S))"

definition hasB :: "string \<Rightarrow> classname list \<Rightarrow> ref list \<Rightarrow> bool" where
  "hasB pt h S = (someShorthand h S [''b''] \<or> (hasBL pt h S \<and> hasBR pt h S))"

definition hasL :: "string \<Rightarrow> classname list \<Rightarrow> ref list \<Rightarrow> bool" where
  "hasL pt h S = (someShorthand h S [''l''] \<or> (hasTL pt h S \<and> hasBL pt h S))"

definition hasX :: "string \<Rightarrow> classname list \<Rightarrow> ref list \<Rightarrow> bool" where
  "hasX pt h S = (someShorthand h S [''x''] \<or> (hasL pt h S \<and> hasR pt h S))"

definition hasY :: "string \<Rightarrow> classname list \<Rightarrow> ref list \<Rightarrow> bool" where
  "hasY pt h S = (someShorthand h S [''y''] \<or> (hasT pt h S \<and> hasB pt h S))"

definition hasAll :: "string \<Rightarrow> classname list \<Rightarrow> ref list \<Rightarrow> bool" where
  "hasAll pt h S = (someShorthand h S [''all''] \<or> (hasY pt h S \<and> hasX pt h S))"

text \<open>
  The template string of lines 235, 243 and 267:
  \<^verbatim>\<open>`${cls.variants}${minus}${body}${absoluteVal.length ? '-' + absoluteVal : ''}`\<close>.
\<close>

definition patchedName :: "classname \<Rightarrow> string \<Rightarrow> string" where
  "patchedName cls body =
     (let isNegative = (take 1 (value' cls) = ''-'');
          minus = (if isNegative then ''-'' else '''');
          absoluteVal = (if isNegative then drop 1 (value' cls) else value' cls)
      in variants cls @ minus @ body @ (if absoluteVal \<noteq> [] then ''-'' @ absoluteVal else ''''))"

text \<open>
  The three statements that end every merging branch: push the trouble, write the new name
  and shorthand into the object \<open>cls\<close>, push \<open>cls\<close> and then the kept references.
\<close>

definition commitMerge ::
  "ref \<Rightarrow> string list \<Rightarrow> string \<Rightarrow> string \<Rightarrow> ref list \<Rightarrow> rule_state \<Rightarrow> rule_state" where
  "commitMerge cls replaced pname sh kept st =
     st\<lparr>troubles := troubles st @ [(replaced, pname)],
        heap := (heap st)[cls := (heap st ! cls)\<lparr>name := pname, shorthand := sh\<rparr>],
        validated := validated st @ [cls] @ kept\<rparr>"

text \<open>
  \<open>mergeSet targetGroups pt cls S st\<close>: the branch for a set \<open>S\<close> (\<^verbatim>\<open>sameVariantAndValue\<close>)
  of two or more references, \<open>pt\<close> being \<^verbatim>\<open>classname.parentType\<close>.
\<close>

definition mergeSet :: "group list \<Rightarrow> string \<Rightarrow> ref \<Rightarrow> ref list \<Rightarrow> rule_state \<Rightarrow> rule_state" where
  "mergeSet targetGroups pt cls S st =
     (let h = heap st in
      if hasAll pt h S then
        commitMerge cls (map (\<lambda>c. name (h ! c)) S)
          (patchedName (h ! cls) (getBodyByShorthand targetGroups pt ''all'')) ''all'' [] st
      else if hasY pt h S \<or> hasX pt h S then
        (let xOrY = (if hasX pt h S then ''x'' else ''y'');
             toBeReplaced = map (\<lambda>c. name (h ! c))
               (filter (\<lambda>c. array_includes (if hasX pt h S then [''l'', ''r''] else [''t'', ''b''])
                                (shorthand (h ! c))) S);
             toBeKept = filter (\<lambda>c. array_includes (if hasY pt h S then [''l'', ''r''] else [''t'', ''b''])
                                (shorthand (h ! c))) S
         in commitMerge cls toBeReplaced
              (patchedName (h ! cls) (getBodyByShorthand targetGroups pt xOrY)) xOrY toBeKept st)
      else if supportCorners pt \<and> (hasT pt h S \<or> hasR pt h S \<or> hasB pt h S \<or> hasL pt h S) then
        (let side = (if hasT pt h S then ''t'' else if hasR pt h S then ''r''
                     else if hasB pt h S then ''b'' else ''l'');
             toBeReplaced = map (\<lambda>c. name (h ! c))
               (filter (\<lambda>c. array_includes (if hasT pt h S then [''tl'', ''tr'']
                                       else if hasR pt h S then [''tr'', ''br'']
                                       else if hasB pt h S then [''bl'', ''br'']
                                       else [''tl'', ''bl''])
                                (shorthand (h ! c))) S);
             toBeKept = filter (\<lambda>c. array_includes (if hasT pt h S then [''bl'', ''br'']
                                               else if hasR pt h S then [''tl'', ''bl'']
                                               else if hasB pt h S then [''tl'', ''tr'']
                                               else [''tr'', ''br''])
                                (shorthand (h ! c))) S
         in commitMerge cls toBeReplaced
              (patchedName (h ! cls) (getBodyByShorthand targetGroups pt side)) side toBeKept st)
      else st\<lparr>validated := validated st @ S\<rparr>)"

subsection \<open>The two loops over the parsed class names (lines 194 to 295)\<close>

text \<open>Line 200: \<^verbatim>\<open>parsed.filter((cls) => cls.parentType === classname.parentType)\<close>.\<close>

definition sameTypeOf :: "classname list \<Rightarrow> ref \<Rightarrow> ref list" where
  "sameTypeOf h c = filter (\<lambda>r. parentType (h ! r) = parentType (h ! c)) [0..<length h]"

text \<open>Lines 207 to 209: the members of \<^verbatim>\<open>sameType\<close> with the variants and the value of \<open>cls\<close>.\<close>

definition sameVariantAndValue :: "classname list \<Rightarrow> ref list \<Rightarrow> ref \<Rightarrow> ref list" where
  "sameVariantAndValue h sameType cls =
     filter (\<lambda>v. variants (h ! v) = variants (h ! cls) \<and> value' (h ! v) = value' (h ! cls)) sameType"

text \<open>Lines 210 to 291: what is done with the set of \<open>cls\<close> once its key is new.\<close>

definition handleSet :: "group list \<Rightarrow> ref \<Rightarrow> ref \<Rightarrow> ref list \<Rightarrow> rule_state \<Rightarrow> rule_state" where
  "handleSet targetGroups c cls S st =
     (if length S = 1 then st\<lparr>validated := validated st @ [cls]\<rparr>
      else if length S \<noteq> 0 then mergeSet targetGroups (parentType (heap st ! c)) cls S st
      else st)"

text \<open>
  The body of \<^verbatim>\<open>sameType.forEach((cls) => ...)\<close>. The loop state is the rule state and
  \<^verbatim>\<open>checkedVariantsValue\<close>; \<open>c\<close> is the reference of the \<^verbatim>\<open>classname\<close> of the outer loop.
\<close>

definition step_cls ::
  "group list \<Rightarrow> ref \<Rightarrow> ref list \<Rightarrow> ref \<Rightarrow> rule_state \<times> string list \<Rightarrow> rule_state \<times> string list" where
  "step_cls targetGroups c sameType cls = (\<lambda>(st, checkedVariantsValue).
     (let key = variants (heap st ! cls) @ value' (heap st ! cls) in
      if \<not> array_includes checkedVariantsValue key then
        (handleSet targetGroups c cls (sameVariantAndValue (heap st) sameType cls) st,
         checkedVariantsValue @ [key])
      else (st, checkedVariantsValue)))"

text \<open>The body of \<^verbatim>\<open>parsed.forEach((classname) => ...)\<close>, with \<^verbatim>\<open>checkedGroups\<close>.\<close>

definition step_classname ::
  "group list \<Rightarrow> ref \<Rightarrow> rule_state \<times> string list \<Rightarrow> rule_state \<times> string list" where
  "step_classname targetGroups c = (\<lambda>(st, checkedGroups).
     (let h = heap st in
      if parentType (h ! c) = '''' then (st\<lparr>validated := validated st @ [c]\<rparr>, checkedGroups)
      else if \<not> array_includes checkedGroups (parentType (h ! c)) then
        (fst (fold (step_cls targetGroups c (sameTypeOf h c)) (sameTypeOf h c) (st, [])),
         checkedGroups @ [parentType (h ! c)])
      else (st, checkedGroups)))"

definition groupAndMerge :: "group list \<Rightarrow> classname list \<Rightarrow> rule_state" where
  "groupAndMerge targetGroups parsed =
     fst (fold (step_classname targetGroups) [0..<length parsed]
            (\<lparr>heap = parsed, validated = [], troubles = []\<rparr>, []))"

text \<open>The objects of \<^verbatim>\<open>validated\<close> as they are when line 298 reads them.\<close>

definition validatedObjects :: "rule_state \<Rightarrow> classname list" where
  "validatedObjects st = map (\<lambda>r. heap st ! r) (validated st)"

subsection \<open>The replacement text and the reports (lines 297 to 328)\<close>

definition assemble :: "bool \<Rightarrow> string option \<Rightarrow> string option \<Rightarrow> classname list \<Rightarrow> string" where
  "assemble isSingle beforeWs afterWs vs =
     (let union = map (\<lambda>v. leading v @ name v @ trailing v) vs;
          union1 = (case beforeWs of None \<Rightarrow> union | Some b \<Rightarrow> b # union);
          union2 = (case afterWs of None \<Rightarrow> union1 | Some a \<Rightarrow> union1 @ [a])
      in join (if isSingle then '' '' else [CHR 0x0A]) union2)"

text \<open>
  The loop \<^verbatim>\<open>.forEach((issue) => ...)\<close> of lines 313 to 328 over the filtered troubles.
  The last argument is the current value of \<^verbatim>\<open>validatedClassNamesValue\<close>, which the
  loop overwrites at every report; the result is the reports and its last value.
\<close>

fun forEach_issue ::
  "string \<Rightarrow> segment \<Rightarrow> trouble list \<Rightarrow> string \<Rightarrow> report list \<times> string" where
  "forEach_issue originalPatched seg [] v = ([], v)"
| "forEach_issue originalPatched seg (issue # rest) v =
     (if originalPatched \<noteq> v then
        (let v' = prefix seg @ v @ suffix seg;
             (rs, vf) = forEach_issue originalPatched seg rest v'
         in (\<lparr>classnames = join '', '' (fst issue), shorthand_name = snd issue,
              fix_range = (start seg, end' seg), fix_text = v'\<rparr> # rs, vf))
      else forEach_issue originalPatched seg rest v)"

definition reportTroubles ::
  "segment \<Rightarrow> bool \<Rightarrow> trouble list \<Rightarrow> string \<Rightarrow> report list \<times> string" where
  "reportTroubles seg isSingle ts validatedClassNamesValue =
     (let originalPatched = (if isSingle then trim_string (originalClassNamesValue seg)
                             else originalClassNamesValue seg)
      in forEach_issue originalPatched seg (filter (\<lambda>t. length (fst t) \<noteq> 0) ts)
           validatedClassNamesValue)"

text \<open>Lines 191 to 328, from the parsed objects on.\<close>

definition analyseParsed ::
  "group list \<Rightarrow> segment \<Rightarrow> bool \<Rightarrow> string option \<Rightarrow> string option \<Rightarrow> classname list \<Rightarrow> outcome" where
  "analyseParsed targetGroups seg isSingle beforeWs afterWs parsed =
     (let st = groupAndMerge targetGroups parsed;
          (rs, vf) = reportTroubles seg isSingle (troubles st)
                       (assemble isSingle beforeWs afterWs (validatedObjects st))
      in \<lparr>parsed_objects = parsed, reports = rs, final_text = vf\<rparr>)"

subsection \<open>parseForShorthandCandidates from line 165 on\<close>

text \<open>
  Lines 170 to 178: the first and the last token of a segment of several lines are set
  aside when they are white space. On an empty array \<^verbatim>\<open>classNames[0]\<close> is
  \<^verbatim>\<open>undefined\<close>, which the regular expression reads as the text "undefined": no match.
\<close>

definition shiftBefore :: "string list \<Rightarrow> string option \<times> string list" where
  "shiftBefore classNames =
     (case classNames of [] \<Rightarrow> (None, [])
      | c # cs \<Rightarrow> if spacesOnly c then (Some c, cs) else (None, classNames))"

definition popAfter :: "string list \<Rightarrow> string option \<times> string list" where
  "popAfter classNames =
     (if classNames = [] then (None, [])
      else if spacesOnly (last classNames) then (Some (last classNames), butlast classNames)
      else (None, classNames))"

text \<open>
  The helpers \<^verbatim>\<open>attrUtil.getClassNamesFromAttribute\<close>, \<^verbatim>\<open>attrUtil.isSingleLine\<close> and
  \<^verbatim>\<open>groupUtil.parseClassname\<close> (with the groups and the configuration it is called with)
  live in other files of the repository: they are the parameters \<open>getClassNames\<close>,
  \<open>isSingleLine\<close> and \<open>parseClassname\<close>.
\<close>

text \<open>Lines 170 to 178 together: \<^verbatim>\<open>before\<close>, \<^verbatim>\<open>after\<close> and what is left of \<^verbatim>\<open>classNames\<close>.\<close>

definition setAside :: "bool \<Rightarrow> string list \<Rightarrow> string option \<times> string option \<times> string list" where
  "setAside isSingle classNames0 =
     (if \<not> isSingle then
        (let (beforeWs, classNames1) = shiftBefore classNames0;
             (afterWs, classNames) = popAfter classNames1
         in (beforeWs, afterWs, classNames))
      else (None, None, classNames0))"

definition parseForShorthandCandidates ::
  "(string \<Rightarrow> bool \<Rightarrow> string list) \<Rightarrow> (string \<Rightarrow> bool) \<Rightarrow> (string \<Rightarrow> nat \<Rightarrow> classname) \<Rightarrow>
   group list \<Rightarrow> segment \<Rightarrow> outcome" where
  "parseForShorthandCandidates getClassNames isSingleLine parseClassname targetGroups seg =
     (let isSingle = isSingleLine (originalClassNamesValue seg);
          (beforeWs, afterWs, classNames) =
             setAside isSingle (getClassNames (originalClassNamesValue seg) (trim seg))
      in if length classNames \<le> 1
         then \<lparr>parsed_objects = [], reports = [], final_text = ''''\<rparr>
         else analyseParsed targetGroups seg isSingle beforeWs afterWs
                (map (\<lambda>(className, index). parseClassname className index)
                     (zip classNames [0..<length classNames])))"

subsection \<open>The resolver as the specification words it\<close>

text \<open>
  The specification reads a set of class names of one family, with the same variants and
  the same value, through the directional codes of its members. The directions form a
  lattice: two corners make a side, two sides an axis, the two axes all. The tables below
  give the two sides of an axis, the other axis, the two corners of a side and the side
  opposite.
\<close>

definition axis_sides :: "string \<Rightarrow> string list" where
  "axis_sides a = (if a = ''x'' then [''l'', ''r''] else [''t'', ''b''])"

definition other_axis :: "string \<Rightarrow> string" where
  "other_axis a = (if a = ''x'' then ''y'' else ''x'')"

definition side_corners :: "string \<Rightarrow> string list" where
  "side_corners s = (if s = ''t'' then [''tl'', ''tr''] else if s = ''r'' then [''tr'', ''br'']
                     else if s = ''b'' then [''bl'', ''br''] else [''tl'', ''bl''])"

definition opposite_side :: "string \<Rightarrow> string" where
  "opposite_side s = (if s = ''t'' then ''b'' else if s = ''r'' then ''l''
                      else if s = ''b'' then ''t'' else ''r'')"

text \<open>
  A code is present when a member of the set has it. A direction is covered when it is
  present or the two directions below it in the lattice are covered. Corners count only
  for a family with corners; the specification does not say when a corner is covered by
  something coarser, and the rule used here is the one of lines 214 to 221: by the side
  above or below it (\<open>corner_row\<close>) or by all, not by the side left or right of it.
\<close>

definition present :: "string list \<Rightarrow> string \<Rightarrow> bool" where
  "present cs c = (c \<in> set cs)"

definition corner_row :: "string \<Rightarrow> string" where
  "corner_row c = (if c = ''tl'' \<or> c = ''tr'' then ''t'' else ''b'')"

definition corner_covered :: "bool \<Rightarrow> string list \<Rightarrow> string \<Rightarrow> bool" where
  "corner_covered corners cs c =
     (corners \<and> (present cs c \<or> present cs (corner_row c) \<or> present cs ''all''))"

definition side_covered :: "bool \<Rightarrow> string list \<Rightarrow> string \<Rightarrow> bool" where
  "side_covered corners cs s = (present cs s \<or> list_all (corner_covered corners cs) (side_corners s))"

definition axis_covered :: "bool \<Rightarrow> string list \<Rightarrow> string \<Rightarrow> bool" where
  "axis_covered corners cs a = (present cs a \<or> list_all (side_covered corners cs) (axis_sides a))"

definition all_covered :: "bool \<Rightarrow> string list \<Rightarrow> bool" where
  "all_covered corners cs = (present cs ''all'' \<or> list_all (axis_covered corners cs) [''x'', ''y''])"




text \<open>
  The sides a directional code of a family without corners stands for, and what a list of
  class names styles: the family, the variants, the value and the side.
\<close>

definition spec_sides :: "string \<Rightarrow> string list" where
  "spec_sides sh = (if sh = ''all'' then [''t'', ''r'', ''b'', ''l'']
                    else if sh = ''x'' then [''l'', ''r'']
                    else if sh = ''y'' then [''t'', ''b'']
                    else [sh])"

definition styled :: "classname list \<Rightarrow> (string \<times> string \<times> string \<times> string) set" where
  "styled cs = set (concat (map (\<lambda>c. map (\<lambda>d. (parentType c, variants c, value' c, d))
                                          (spec_sides (shorthand c))) cs))"

subsection \<open>Notions used in the proofs\<close>

text \<open>
  The conditional of lines 233 to 290 taken apart for the proofs: \<open>code_branch\<close> is the
  branch the code takes, read off its flags, and \<open>apply_branch\<close> is what the code does in
  that branch, so that a proof can go by the cases of the branch. Both are the code's;
  what the specification says of the resolver is \<open>spec_merge\<close>.
\<close>

datatype branch = MergeAll | MergeAxis string | MergeSide string | KeepAll

definition code_branch :: "string \<Rightarrow> classname list \<Rightarrow> ref list \<Rightarrow> branch" where
  "code_branch pt h S =
     (if someShorthand h S [''all''] \<or> (hasX pt h S \<and> hasY pt h S) then MergeAll
      else if hasX pt h S then MergeAxis ''x''
      else if hasY pt h S then MergeAxis ''y''
      else if supportCorners pt \<and> hasT pt h S then MergeSide ''t''
      else if supportCorners pt \<and> hasR pt h S then MergeSide ''r''
      else if supportCorners pt \<and> hasB pt h S then MergeSide ''b''
      else if supportCorners pt \<and> hasL pt h S then MergeSide ''l''
      else KeepAll)"

definition members_with :: "classname list \<Rightarrow> string list \<Rightarrow> ref list \<Rightarrow> ref list" where
  "members_with h cs S = filter (\<lambda>c. shorthand (h ! c) \<in> set cs) S"

definition apply_branch ::
  "group list \<Rightarrow> string \<Rightarrow> ref \<Rightarrow> ref list \<Rightarrow> rule_state \<Rightarrow> branch \<Rightarrow> rule_state" where
  "apply_branch tg pt cls S st res =
     (case res of
        MergeAll \<Rightarrow>
          commitMerge cls (map (\<lambda>c. name (heap st ! c)) S)
            (patchedName (heap st ! cls) (getBodyByShorthand tg pt ''all'')) ''all'' [] st
      | MergeAxis a \<Rightarrow>
          commitMerge cls (map (\<lambda>c. name (heap st ! c)) (members_with (heap st) (axis_sides a) S))
            (patchedName (heap st ! cls) (getBodyByShorthand tg pt a)) a
            (members_with (heap st) (axis_sides (other_axis a)) S) st
      | MergeSide s \<Rightarrow>
          commitMerge cls (map (\<lambda>c. name (heap st ! c)) (members_with (heap st) (side_corners s) S))
            (patchedName (heap st ! cls) (getBodyByShorthand tg pt s)) s
            (members_with (heap st) (side_corners (opposite_side s)) S) st
      | KeepAll \<Rightarrow> st\<lparr>validated := validated st @ S\<rparr>)"

text \<open>The fields of an object that the rule never writes.\<close>

definition kf :: "classname \<Rightarrow> string \<times> string \<times> string \<times> string \<times> string" where
  "kf c = (parentType c, variants c, value' c, leading c, trailing c)"

text \<open>
  A trouble of the inner loop is good when its names are the names, in the heap \<open>h0\<close> the
  loop started with, of members of \<open>sameType\<close> that have the variants and the value of
  one member, from which the new name is made.
\<close>

definition inner_good :: "classname list \<Rightarrow> ref list \<Rightarrow> trouble \<Rightarrow> bool" where
  "inner_good h0 sameType t =
     (\<exists>I rep body. set I \<subseteq> set sameType \<and> rep \<in> set sameType \<and>
        fst t = map (\<lambda>i. name (h0 ! i)) I \<and> snd t = patchedName (h0 ! rep) body \<and>
        (\<forall>i\<in>set I. variants (h0 ! i) = variants (h0 ! rep) \<and> value' (h0 ! i) = value' (h0 ! rep)))"

text \<open>
  The invariant of the inner loop: only members of \<open>sameType\<close> whose key is checked have
  been written, \<^verbatim>\<open>validated\<close> has grown by members of \<open>sameType\<close>, and \<^verbatim>\<open>troubles\<close> by
  good troubles.
\<close>

definition inner_inv ::
  "classname list \<Rightarrow> ref list \<Rightarrow> ref list \<Rightarrow> trouble list \<Rightarrow> rule_state \<times> string list \<Rightarrow> bool" where
  "inner_inv h0 sameType v0 t0 = (\<lambda>(st, cvv).
     map kf (heap st) = map kf h0 \<and>
     (\<forall>r. r \<notin> set sameType \<longrightarrow> heap st ! r = h0 ! r) \<and>
     (\<forall>r\<in>set sameType. variants (h0 ! r) @ value' (h0 ! r) \<notin> set cvv \<longrightarrow> heap st ! r = h0 ! r) \<and>
     (\<exists>ks. validated st = v0 @ ks \<and> set ks \<subseteq> set sameType) \<and>
     (\<exists>ts. troubles st = t0 @ ts \<and> (\<forall>t\<in>set ts. inner_good h0 sameType t)))"

text \<open>
  A trouble is good for the parsed class names when its names are the names of parsed
  objects that have the family, the variants and the value of one parsed object of a
  family, from which the new name is made.
\<close>

definition good_trouble :: "classname list \<Rightarrow> trouble \<Rightarrow> bool" where
  "good_trouble parsed t =
     (\<exists>I rep body. (\<forall>i\<in>set I. i < length parsed) \<and> rep < length parsed \<and>
        parentType (parsed ! rep) \<noteq> '''' \<and>
        fst t = map (\<lambda>i. name (parsed ! i)) I \<and> snd t = patchedName (parsed ! rep) body \<and>
        (\<forall>i\<in>set I. parentType (parsed ! i) = parentType (parsed ! rep) \<and>
                    variants (parsed ! i) = variants (parsed ! rep) \<and>
                    value' (parsed ! i) = value' (parsed ! rep)))"

text \<open>
  The invariant of the outer loop after \<open>k\<close> class names: only objects of checked families
  have been written, the references of \<^verbatim>\<open>validated\<close> are in range, those of objects
  without a family are the first \<open>k\<close> such references in order, and the troubles are good.
\<close>

definition outer_inv :: "classname list \<Rightarrow> nat \<Rightarrow> rule_state \<times> string list \<Rightarrow> bool" where
  "outer_inv parsed k = (\<lambda>(st, cg).
     map kf (heap st) = map kf parsed \<and>
     '''' \<notin> set cg \<and>
     (\<forall>r<length parsed. parentType (parsed ! r) \<notin> set cg \<longrightarrow> heap st ! r = parsed ! r) \<and>
     (\<forall>r\<in>set (validated st). r < length parsed) \<and>
     filter (\<lambda>r. parentType (parsed ! r) = '''') (validated st)
       = filter (\<lambda>r. parentType (parsed ! r) = '''') [0..<k] \<and>
     (\<forall>t\<in>set (troubles st). good_trouble parsed t))"

text \<open>The directional codes of a list of references, and a set of objects that is at rest:
  the branch the merge takes for it subsumes no name.\<close>

definition codes :: "classname list \<Rightarrow> ref list \<Rightarrow> string list" where
  "codes h S = map (\<lambda>r. shorthand (h ! r)) S"

definition quiet :: "string \<Rightarrow> classname list \<Rightarrow> ref list \<Rightarrow> bool" where
  "quiet pt h S =
     (case code_branch pt h S of
        MergeAll \<Rightarrow> False
      | MergeAxis a \<Rightarrow> set (codes h S) \<inter> set (axis_sides a) = {}
      | MergeSide s \<Rightarrow> set (codes h S) \<inter> set (side_corners s) = {}
      | KeepAll \<Rightarrow> True)"

text \<open>
  References are settled when, for every pair of variants and value, those of them with
  that pair are at most one or a set at rest.
\<close>

definition settled_in :: "string \<Rightarrow> classname list \<Rightarrow> classname list \<Rightarrow> ref list \<Rightarrow> bool" where
  "settled_in pt h0 h ks =
     (\<forall>v w. length (filter (\<lambda>r. variants (h0 ! r) = v \<and> value' (h0 ! r) = w) ks) \<le> 1 \<or>
            quiet pt h (filter (\<lambda>r. variants (h0 ! r) = v \<and> value' (h0 ! r) = w) ks))"

text \<open>
  The second invariant of the inner loop, for the family \<open>pt\<close>: what the loop has added to
  \<^verbatim>\<open>validated\<close> has a checked key and is settled.
\<close>

definition inner_inv2 :: "string \<Rightarrow> classname list \<Rightarrow> ref list \<Rightarrow> rule_state \<times> string list \<Rightarrow> bool" where
  "inner_inv2 pt h0 v0 = (\<lambda>(st, cvv).
     (\<forall>r\<in>set (drop (length v0) (validated st)). variants (h0 ! r) @ value' (h0 ! r) \<in> set cvv) \<and>
     settled_in pt h0 (heap st) (drop (length v0) (validated st)))"

text \<open>
  The second invariant of the outer loop: \<^verbatim>\<open>validated\<close> holds objects without a family
  or of a checked family, and for every family, variants and value those of its references
  with them are at most one or a set at rest.
\<close>

definition outer_inv2 :: "classname list \<Rightarrow> rule_state \<times> string list \<Rightarrow> bool" where
  "outer_inv2 parsed = (\<lambda>(st, cg).
     (\<forall>r\<in>set (validated st). parentType (parsed ! r) = '''' \<or> parentType (parsed ! r) \<in> set cg) \<and>
     (\<forall>pt v w. pt \<noteq> '''' \<longrightarrow>
        length (filter (\<lambda>r. parentType (parsed ! r) = pt \<and> variants (parsed ! r) = v \<and>
                           value' (parsed ! r) = w) (validated st)) \<le> 1 \<or>
        quiet pt (heap st) (filter (\<lambda>r. parentType (parsed ! r) = pt \<and> variants (parsed ! r) = v \<and>
                                      value' (parsed ! r) = w) (validated st))))"

text \<open>
  A list of objects is at rest when, for each of its objects that has a family, the
  objects with its family, variants and value are at most one or a set at rest.
\<close>

definition at_rest :: "classname list \<Rightarrow> bool" where
  "at_rest U =
     (\<forall>cls<length U. parentType (U ! cls) \<noteq> '''' \<longrightarrow>
        length (sameVariantAndValue U (sameTypeOf U cls) cls) \<le> 1 \<or>
        quiet (parentType (U ! cls)) U (sameVariantAndValue U (sameTypeOf U cls) cls))"

text \<open>The third invariant of the loops: the troubles added so far subsume no name.\<close>

definition inner_inv3 :: "trouble list \<Rightarrow> rule_state \<times> string list \<Rightarrow> bool" where
  "inner_inv3 t0 = (\<lambda>(st, cvv). \<forall>t\<in>set (drop (length t0) (troubles st)). fst t = [])"

definition outer_inv3 :: "rule_state \<times> string list \<Rightarrow> bool" where
  "outer_inv3 = (\<lambda>(st, cg). \<forall>t\<in>set (troubles st). fst t = [])"

subsection \<open>Reading a replacement text back\<close>

text \<open>The objects \<^verbatim>\<open>parseForShorthandCandidates\<close> parses for a segment (lines 165 to 189).\<close>

definition parsedOf ::
  "(string \<Rightarrow> bool \<Rightarrow> string list) \<Rightarrow> (string \<Rightarrow> bool) \<Rightarrow> (string \<Rightarrow> nat \<Rightarrow> classname) \<Rightarrow>
   segment \<Rightarrow> classname list" where
  "parsedOf getClassNames isSingleLine parseClassname seg =
     (let classNames = snd (snd (setAside (isSingleLine (originalClassNamesValue seg))
                                   (getClassNames (originalClassNamesValue seg) (trim seg))))
      in map (\<lambda>(className, index). parseClassname className index)
             (zip classNames [0..<length classNames]))"

text \<open>What the merge reads of an object: its family, directional code, variants and value.\<close>

definition descriptor :: "classname \<Rightarrow> string \<times> string \<times> string \<times> string" where
  "descriptor c = (parentType c, shorthand c, variants c, value' c)"

text \<open>
  Modelled from the spec: the tokenizer \<^verbatim>\<open>attrUtil.getClassNamesFromAttribute\<close> and the
  class name parser \<^verbatim>\<open>groupUtil.parseClassname\<close> are not in the source files at hand. The
  specification makes the \<^verbatim>\<open>name\<close> of a descriptor its string form, made of its variants,
  sign, body and value, and the parser the map from a class name to its family,
  directional code, variants and value. A segment \<open>reads back\<close> a list of objects when
  these helpers parse it into objects with the same families, codes, variants and values,
  one for one; this is what the specification has them do for a text made of the names
  of the objects.
\<close>

definition readsBack ::
  "(string \<Rightarrow> bool \<Rightarrow> string list) \<Rightarrow> (string \<Rightarrow> bool) \<Rightarrow> (string \<Rightarrow> nat \<Rightarrow> classname) \<Rightarrow>
   segment \<Rightarrow> classname list \<Rightarrow> bool" where
  "readsBack getClassNames isSingleLine parseClassname seg objs =
     (map descriptor (parsedOf getClassNames isSingleLine parseClassname seg) = map descriptor objs)"

subsection \<open>Example inputs\<close>

text \<open>
  A table of the shape \<^verbatim>\<open>getBodyByShorthand\<close> reads, with the margin classes of the
  file's own header (\<^verbatim>\<open>mx-3 my-3\<close> and \<^verbatim>\<open>m-3\<close>) and the border radius classes
  of Tailwind CSS, which have sides and corners but no axis.
\<close>

definition en :: "string \<Rightarrow> string \<Rightarrow> entry" where
  "en b sh = \<lparr>e_type = b, e_body = b, e_shorthand = sh\<rparr>"

definition exampleGroups :: "group list" where
  "exampleGroups =
    [\<lparr>g_type = ''Spacing'', g_members =
        [\<lparr>f_type = ''Margin'', f_members =
            [en ''m'' ''all'', en ''mx'' ''x'', en ''my'' ''y'', en ''mt'' ''t'',
             en ''mr'' ''r'', en ''mb'' ''b'', en ''ml'' ''l'']\<rparr>]\<rparr>,
     \<lparr>g_type = ''Borders'', g_members =
        [\<lparr>f_type = ''Border Radius'', f_members =
            [en ''rounded'' ''all'', en ''rounded-t'' ''t'', en ''rounded-r'' ''r'',
             en ''rounded-b'' ''b'', en ''rounded-l'' ''l'', en ''rounded-tl'' ''tl'',
             en ''rounded-tr'' ''tr'', en ''rounded-br'' ''br'', en ''rounded-bl'' ''bl'']\<rparr>]\<rparr>]"

text \<open>A class name without variants and without white space around it.\<close>

definition cn :: "string \<Rightarrow> string \<Rightarrow> string \<Rightarrow> string \<Rightarrow> classname" where
  "cn nm pt sh v = \<lparr>name = nm, leading = '''', trailing = '''', parentType = pt, shorthand = sh,
                    value' = v, variants = ''''\<rparr>"

definition margin :: "string \<Rightarrow> string \<Rightarrow> classname" where
  "margin sh v = cn (''m'' @ sh @ ''-'' @ v) ''Margin'' sh v"

definition rounded :: "string \<Rightarrow> classname" where
  "rounded sh = cn (''rounded-'' @ sh @ ''-lg'') ''Border Radius'' sh ''lg''"

text \<open>A segment with the given text, as an attribute or a string literal gives it.\<close>

definition literalSegment :: "string \<Rightarrow> segment" where
  "literalSegment s = \<lparr>originalClassNamesValue = s, start = 1, end' = 1 + int (length s),
                         prefix = '''', suffix = '''', trim = True\<rparr>"

text \<open>A segment that is the only element of a template literal, between its back quotes.\<close>

definition templateSegment :: "string \<Rightarrow> segment" where
  "templateSegment s = \<lparr>originalClassNamesValue = s, start = 0, end' = 2 + int (length s),
                          prefix = ''`'', suffix = ''`'', trim = False\<rparr>"

text \<open>
  Helpers for the examples: a tokenizer that splits at single spaces, and a parser that
  knows six margin classes and gives every other class name no family.
\<close>

fun split_spaces :: "string \<Rightarrow> string list" where
  "split_spaces [] = [[]]"
| "split_spaces (c # cs) =
     (if c = CHR '' '' then [] # split_spaces cs
      else (case split_spaces cs of [] \<Rightarrow> [[c]] | w # ws \<Rightarrow> (c # w) # ws))"

definition exampleTokens :: "string \<Rightarrow> bool \<Rightarrow> string list" where
  "exampleTokens s t = split_spaces (if t then trim_string s else s)"

definition exampleParse :: "string \<Rightarrow> nat \<Rightarrow> classname" where
  "exampleParse s i =
     (if s = ''mt-3'' then margin ''t'' ''3'' else if s = ''mb-3'' then margin ''b'' ''3''
      else if s = ''ml-4'' then margin ''l'' ''4'' else if s = ''mr-4'' then margin ''r'' ''4''
      else if s = ''my-3'' then margin ''y'' ''3'' else if s = ''mx-4'' then margin ''x'' ''4''
      else cn s '''' '''' '''')"

section \<open>The merge of one set\<close>

lemma hasAll_iff: "hasAll pt h S \<longleftrightarrow> someShorthand h S [''all''] \<or> (hasX pt h S \<and> hasY pt h S)"
  by (auto simp: hasAll_def)

lemma mergeSet_eq_apply_branch:
  "mergeSet tg pt cls S st = apply_branch tg pt cls S st (code_branch pt (heap st) S)"
  unfolding mergeSet_def apply_branch_def code_branch_def Let_def hasAll_iff
  by (auto simp: axis_sides_def other_axis_def side_corners_def opposite_side_def members_with_def array_includes_def)

lemma kf_nth:
  assumes "map kf h = map kf h'" "r < length h"
  shows "parentType (h ! r) = parentType (h' ! r)" "variants (h ! r) = variants (h' ! r)"
        "value' (h ! r) = value' (h' ! r)" "leading (h ! r) = leading (h' ! r)"
        "trailing (h ! r) = trailing (h' ! r)"
proof -
  from assms have "length h' = length h" by (metis length_map)
  with assms have "kf (h ! r) = kf (h' ! r)" by (metis nth_map)
  then show "parentType (h ! r) = parentType (h' ! r)" "variants (h ! r) = variants (h' ! r)"
        "value' (h ! r) = value' (h' ! r)" "leading (h ! r) = leading (h' ! r)"
        "trailing (h ! r) = trailing (h' ! r)"
    by (simp_all add: kf_def)
qed

lemma kf_update: "map kf (h[cls := (h ! cls)\<lparr>name := pn, shorthand := sh\<rparr>]) = map kf h"
proof (cases "cls < length h")
  case True
  have "map kf (h[cls := (h ! cls)\<lparr>name := pn, shorthand := sh\<rparr>]) = (map kf h)[cls := kf (h ! cls)]"
    by (simp add: map_update kf_def)
  also have "\<dots> = map kf h" using True by (metis list_update_id nth_map)
  finally show ?thesis .
next
  case False
  then show ?thesis by (simp add: list_update_beyond)
qed

lemma commitMerge_simps:
  "map kf (heap (commitMerge cls rep pn sh kept st)) = map kf (heap st)"
  "length (heap (commitMerge cls rep pn sh kept st)) = length (heap st)"
  "r \<noteq> cls \<Longrightarrow> heap (commitMerge cls rep pn sh kept st) ! r = heap st ! r"
  "validated (commitMerge cls rep pn sh kept st) = validated st @ cls # kept"
  "troubles (commitMerge cls rep pn sh kept st) = troubles st @ [(rep, pn)]"
  by (simp_all add: commitMerge_def kf_update)

text \<open>Every branch of the merge either keeps the set or commits a merge of a part of it.\<close>

lemma mergeSet_shape:
  "mergeSet tg pt cls S st = st\<lparr>validated := validated st @ S\<rparr> \<or>
   (\<exists>P Q body sh. mergeSet tg pt cls S st =
      commitMerge cls (map (\<lambda>c. name (heap st ! c)) (filter P S))
        (patchedName (heap st ! cls) body) sh (filter Q S) st)"
proof -
  let ?h = "heap st"
  let ?res = "code_branch pt ?h S"
  have eq: "mergeSet tg pt cls S st = apply_branch tg pt cls S st ?res"
    by (rule mergeSet_eq_apply_branch)
  show ?thesis
  proof (cases ?res)
    case MergeAll
    have "mergeSet tg pt cls S st =
      commitMerge cls (map (\<lambda>c. name (?h ! c)) (filter (\<lambda>_. True) S))
        (patchedName (?h ! cls) (getBodyByShorthand tg pt ''all'')) ''all'' (filter (\<lambda>_. False) S) st"
      using eq MergeAll by (simp add: apply_branch_def)
    then show ?thesis by blast
  next
    case (MergeAxis a)
    have "mergeSet tg pt cls S st =
      commitMerge cls (map (\<lambda>c. name (?h ! c)) (filter (\<lambda>c. shorthand (?h ! c) \<in> set (axis_sides a)) S))
        (patchedName (?h ! cls) (getBodyByShorthand tg pt a)) a
        (filter (\<lambda>c. shorthand (?h ! c) \<in> set (axis_sides (other_axis a))) S) st"
      using eq MergeAxis by (simp add: apply_branch_def members_with_def)
    then show ?thesis by blast
  next
    case (MergeSide s)
    have "mergeSet tg pt cls S st =
      commitMerge cls (map (\<lambda>c. name (?h ! c)) (filter (\<lambda>c. shorthand (?h ! c) \<in> set (side_corners s)) S))
        (patchedName (?h ! cls) (getBodyByShorthand tg pt s)) s
        (filter (\<lambda>c. shorthand (?h ! c) \<in> set (side_corners (opposite_side s))) S) st"
      using eq MergeSide by (simp add: apply_branch_def members_with_def)
    then show ?thesis by blast
  next
    case KeepAll
    with eq show ?thesis by (simp add: apply_branch_def)
  qed
qed

lemma handleSet_shape:
  "handleSet tg c cls S st = st\<lparr>validated := validated st @ [cls]\<rparr> \<or>
   handleSet tg c cls S st = st \<or>
   handleSet tg c cls S st = st\<lparr>validated := validated st @ S\<rparr> \<or>
   (\<exists>P Q body sh. handleSet tg c cls S st =
      commitMerge cls (map (\<lambda>c. name (heap st ! c)) (filter P S))
        (patchedName (heap st ! cls) body) sh (filter Q S) st)"
proof (cases "length S = 1")
  case True
  then show ?thesis by (simp add: handleSet_def)
next
  case n1: False
  show ?thesis
  proof (cases "length S = 0")
    case True
    then show ?thesis by (simp add: handleSet_def)
  next
    case False
    with n1 have eq: "handleSet tg c cls S st = mergeSet tg (parentType (heap st ! c)) cls S st"
      by (simp add: handleSet_def)
    show ?thesis unfolding eq
      by (rule disjI2, rule disjI2, rule mergeSet_shape)
  qed
qed

section \<open>The inner loop\<close>

lemma inner_inv_handleSet:
  assumes inv: "inner_inv h0 sameType v0 t0 (st, cvv)"
    and cls: "cls \<in> set sameType"
    and Ssub: "set S \<subseteq> set sameType"
    and Sfresh: "\<forall>r\<in>set S. heap st ! r = h0 ! r"
    and Skey: "\<forall>r\<in>set S. variants (h0 ! r) = variants (h0 ! cls) \<and> value' (h0 ! r) = value' (h0 ! cls)"
    and clsfresh: "heap st ! cls = h0 ! cls"
    and key: "variants (h0 ! cls) @ value' (h0 ! cls) = k"
  shows "inner_inv h0 sameType v0 t0 (handleSet tg c cls S st, cvv @ [k])"
proof -
  let ?h = "heap st"
  from inv have kfeq: "map kf ?h = map kf h0"
    and out: "\<forall>r. r \<notin> set sameType \<longrightarrow> ?h ! r = h0 ! r"
    and fresh: "\<forall>r\<in>set sameType. variants (h0 ! r) @ value' (h0 ! r) \<notin> set cvv \<longrightarrow> ?h ! r = h0 ! r"
    and val: "\<exists>ks. validated st = v0 @ ks \<and> set ks \<subseteq> set sameType"
    and tr: "\<exists>ts. troubles st = t0 @ ts \<and> (\<forall>t\<in>set ts. inner_good h0 sameType t)"
    by (simp_all add: inner_inv_def)
  have keep_fresh: "\<forall>r\<in>set sameType. variants (h0 ! r) @ value' (h0 ! r) \<notin> set (cvv @ [k]) \<longrightarrow> ?h ! r = h0 ! r"
    using fresh by simp
  have not_cls: "r \<noteq> cls" if "variants (h0 ! r) @ value' (h0 ! r) \<notin> set (cvv @ [k])" for r
    using that key by auto
  from val obtain ks where ks: "validated st = v0 @ ks" "set ks \<subseteq> set sameType" by blast
  from tr obtain ts where ts: "troubles st = t0 @ ts" "\<forall>t\<in>set ts. inner_good h0 sameType t" by blast
  have pushed: "inner_inv h0 sameType v0 t0 (st\<lparr>validated := validated st @ xs\<rparr>, cvv @ [k])"
    if "set xs \<subseteq> set sameType" for xs
  proof -
    have "validated st @ xs = v0 @ (ks @ xs)" "set (ks @ xs) \<subseteq> set sameType"
      using ks that by simp_all
    then have "\<exists>ks'. validated st @ xs = v0 @ ks' \<and> set ks' \<subseteq> set sameType" by blast
    with kfeq out keep_fresh tr show ?thesis by (simp add: inner_inv_def)
  qed
  from handleSet_shape [of tg c cls S st] show ?thesis
  proof (elim disjE exE)
    assume "handleSet tg c cls S st = st\<lparr>validated := validated st @ [cls]\<rparr>"
    with pushed [of "[cls]"] cls show ?thesis by simp
  next
    assume "handleSet tg c cls S st = st"
    with pushed [of "[]"] show ?thesis by simp
  next
    assume "handleSet tg c cls S st = st\<lparr>validated := validated st @ S\<rparr>"
    with pushed [of S] Ssub show ?thesis by simp
  next
    fix P Q body sh
    assume merge: "handleSet tg c cls S st = commitMerge cls (map (\<lambda>c. name (?h ! c)) (filter P S))
                  (patchedName (?h ! cls) body) sh (filter Q S) st"
    let ?st' = "handleSet tg c cls S st"
    let ?t = "(map (\<lambda>c. name (?h ! c)) (filter P S), patchedName (?h ! cls) body)"
    have 1: "map kf (heap ?st') = map kf h0" using kfeq by (simp add: merge commitMerge_simps)
    have 2: "\<forall>r. r \<notin> set sameType \<longrightarrow> heap ?st' ! r = h0 ! r"
    proof (intro allI impI)
      fix r assume r: "r \<notin> set sameType"
      with cls have "r \<noteq> cls" by blast
      then have "heap ?st' ! r = ?h ! r" by (simp add: merge commitMerge_simps)
      with out r show "heap ?st' ! r = h0 ! r" by simp
    qed
    have 3: "\<forall>r\<in>set sameType. variants (h0 ! r) @ value' (h0 ! r) \<notin> set (cvv @ [k]) \<longrightarrow> heap ?st' ! r = h0 ! r"
    proof (intro ballI impI)
      fix r assume r: "r \<in> set sameType"
        and k: "variants (h0 ! r) @ value' (h0 ! r) \<notin> set (cvv @ [k])"
      from not_cls [OF k] have "heap ?st' ! r = ?h ! r" by (simp add: merge commitMerge_simps)
      with keep_fresh r k show "heap ?st' ! r = h0 ! r" by simp
    qed
    have 4: "\<exists>ks'. validated ?st' = v0 @ ks' \<and> set ks' \<subseteq> set sameType"
    proof -
      have "validated ?st' = v0 @ (ks @ cls # filter Q S)" using ks by (simp add: merge commitMerge_simps)
      moreover have "set (ks @ cls # filter Q S) \<subseteq> set sameType" using ks cls Ssub by auto
      ultimately show ?thesis by blast
    qed
    have good: "inner_good h0 sameType ?t"
    proof -
      have a: "set (filter P S) \<subseteq> set sameType" using Ssub by auto
      have b: "map (\<lambda>c. name (?h ! c)) (filter P S) = map (\<lambda>i. name (h0 ! i)) (filter P S)"
        using Sfresh by (intro map_cong) simp_all
      have c: "\<forall>i\<in>set (filter P S). variants (h0 ! i) = variants (h0 ! cls) \<and> value' (h0 ! i) = value' (h0 ! cls)"
        using Skey by simp
      have d: "patchedName (?h ! cls) body = patchedName (h0 ! cls) body" using clsfresh by simp
      show ?thesis unfolding inner_good_def fst_conv snd_conv
        using a b c d cls by blast
    qed
    have 5: "\<exists>ts'. troubles ?st' = t0 @ ts' \<and> (\<forall>t\<in>set ts'. inner_good h0 sameType t)"
    proof -
      have "troubles ?st' = t0 @ (ts @ [?t])" using ts by (simp add: merge commitMerge_simps)
      moreover have "\<forall>t\<in>set (ts @ [?t]). inner_good h0 sameType t" using ts good by simp
      ultimately show ?thesis by blast
    qed
    from 1 2 3 4 5 show ?thesis by (simp add: inner_inv_def)
  qed
qed

lemma inner_step:
  assumes inv: "inner_inv h0 sameType v0 t0 (st, cvv)"
    and cls: "cls \<in> set sameType"
    and bound: "\<forall>r\<in>set sameType. r < length h0"
  shows "inner_inv h0 sameType v0 t0 (step_cls tg c sameType cls (st, cvv))"
proof -
  let ?h = "heap st"
  let ?key = "variants (?h ! cls) @ value' (?h ! cls)"
  define S where "S = sameVariantAndValue ?h sameType cls"
  from inv have kfeq: "map kf ?h = map kf h0"
    and fresh: "\<forall>r\<in>set sameType. variants (h0 ! r) @ value' (h0 ! r) \<notin> set cvv \<longrightarrow> ?h ! r = h0 ! r"
    by (simp_all add: inner_inv_def)
  from kfeq have len: "length ?h = length h0" by (metis length_map)
  have fields: "variants (?h ! r) = variants (h0 ! r)" "value' (?h ! r) = value' (h0 ! r)"
    if "r \<in> set sameType" for r
    using kf_nth [OF kfeq, of r] that bound len by simp_all
  show ?thesis
  proof (cases "array_includes cvv ?key")
    case True
    then have "step_cls tg c sameType cls (st, cvv) = (st, cvv)"
      by (simp add: step_cls_def Let_def)
    with inv show ?thesis by simp
  next
    case False
    then have notin: "?key \<notin> set cvv" by (simp add: array_includes_def)
    have keycls: "variants (h0 ! cls) @ value' (h0 ! cls) = ?key"
      using fields [OF cls] by simp
    have Ssub: "set S \<subseteq> set sameType" by (auto simp: S_def sameVariantAndValue_def)
    have Smem: "variants (?h ! r) = variants (?h ! cls) \<and> value' (?h ! r) = value' (?h ! cls)"
      if "r \<in> set S" for r using that by (simp add: S_def sameVariantAndValue_def)
    have Skey0: "variants (h0 ! r) = variants (h0 ! cls) \<and> value' (h0 ! r) = value' (h0 ! cls)"
      if "r \<in> set S" for r
    proof -
      from that Ssub have r: "r \<in> set sameType" by blast
      from Smem [OF that] fields [OF r] fields [OF cls] show ?thesis by simp
    qed
    have Sfresh: "?h ! r = h0 ! r" if "r \<in> set S" for r
    proof -
      from that Ssub have r: "r \<in> set sameType" by blast
      from Skey0 [OF that] keycls have "variants (h0 ! r) @ value' (h0 ! r) = ?key" by simp
      with notin fresh r show ?thesis by simp
    qed
    have clsS: "cls \<in> set S" using cls by (simp add: S_def sameVariantAndValue_def)
    have step: "step_cls tg c sameType cls (st, cvv) = (handleSet tg c cls S st, cvv @ [?key])"
      using False by (simp add: step_cls_def Let_def S_def)
    have "inner_inv h0 sameType v0 t0 (handleSet tg c cls S st, cvv @ [?key])"
      using inv cls Ssub Sfresh Skey0 Sfresh [OF clsS] keycls
      by (intro inner_inv_handleSet) blast+
    with step show ?thesis by simp
  qed
qed

lemma inner_fold:
  assumes "set xs \<subseteq> set sameType" "\<forall>r\<in>set sameType. r < length h0"
    and "inner_inv h0 sameType v0 t0 s"
  shows "inner_inv h0 sameType v0 t0 (fold (step_cls tg c sameType) xs s)"
  using assms
proof (induction xs arbitrary: s)
  case Nil
  then show ?case by simp
next
  case (Cons x xs)
  obtain st cvv where s: "s = (st, cvv)" by (cases s)
  from Cons.prems have "inner_inv h0 sameType v0 t0 (step_cls tg c sameType x s)"
    unfolding s by (intro inner_step) auto
  with Cons show ?case by simp
qed

section \<open>The outer loop\<close>

lemma sameTypeOf_mem:
  "r \<in> set (sameTypeOf h c) \<longleftrightarrow> r < length h \<and> parentType (h ! r) = parentType (h ! c)"
  by (auto simp: sameTypeOf_def)

lemma inner_inv_init: "inner_inv (heap st) sameType (validated st) (troubles st) (st, [])"
  by (simp add: inner_inv_def)

lemma outer_step:
  assumes inv: "outer_inv parsed k (st, cg)" and k: "k < length parsed"
  shows "outer_inv parsed (Suc k) (step_classname tg k (st, cg))"
proof -
  let ?h = "heap st"
  let ?P = "\<lambda>r. parentType (parsed ! r) = ''''"
  let ?pt = "parentType (?h ! k)"
  from inv have kfeq: "map kf ?h = map kf parsed"
    and noempty: "'''' \<notin> set cg"
    and fresh: "\<forall>r<length parsed. parentType (parsed ! r) \<notin> set cg \<longrightarrow> ?h ! r = parsed ! r"
    and bound: "\<forall>r\<in>set (validated st). r < length parsed"
    and pass: "filter ?P (validated st) = filter ?P [0..<k]"
    and good: "\<forall>t\<in>set (troubles st). good_trouble parsed t"
    by (simp_all add: outer_inv_def)
  from kfeq have len: "length ?h = length parsed" by (metis length_map)
  have ptr: "parentType (?h ! r) = parentType (parsed ! r)" if "r < length parsed" for r
    using kf_nth(1) [OF kfeq, of r] that len by simp
  have ptk: "?pt = parentType (parsed ! k)" using ptr [OF k] .
  show ?thesis
  proof (cases "?pt = ''''")
    case True
    then have step: "step_classname tg k (st, cg) = (st\<lparr>validated := validated st @ [k]\<rparr>, cg)"
      by (simp add: step_classname_def Let_def)
    have "filter ?P (validated st @ [k]) = filter ?P [0..<Suc k]"
      using pass True ptk by simp
    with kfeq noempty fresh bound good k show ?thesis
      unfolding step by (simp add: outer_inv_def)
  next
    case nonempty: False
    have Pk: "\<not> ?P k" using nonempty ptk by simp
    then have upt: "filter ?P [0..<Suc k] = filter ?P [0..<k]" by simp
    show ?thesis
    proof (cases "array_includes cg ?pt")
      case True
      then have step: "step_classname tg k (st, cg) = (st, cg)"
        using nonempty by (simp add: step_classname_def Let_def)
      from kfeq noempty fresh bound good pass upt show ?thesis
        unfolding step by (simp add: outer_inv_def)
    next
      case False
      then have new: "?pt \<notin> set cg" by (simp add: array_includes_def)
      define sameType where "sameType = sameTypeOf ?h k"
      define res where "res = fold (step_cls tg k sameType) sameType (st, [])"
      obtain st' cvv where res: "res = (st', cvv)" by (cases res)
      have step: "step_classname tg k (st, cg) = (st', cg @ [?pt])"
        using nonempty False res by (simp add: step_classname_def Let_def sameType_def res_def)
      have mem: "r < length parsed \<and> parentType (parsed ! r) = ?pt" if "r \<in> set sameType" for r
        using that ptr [of r] len by (simp add: sameType_def sameTypeOf_mem)
      have nonmem: "r \<notin> set sameType" if "r < length parsed" "parentType (parsed ! r) \<noteq> ?pt" for r
        using that ptr [of r] len by (simp add: sameType_def sameTypeOf_mem)
      have same0: "?h ! r = parsed ! r" if "r \<in> set sameType" for r
        using mem [OF that] fresh new by simp
      have "inner_inv ?h sameType (validated st) (troubles st) res"
        unfolding res_def using mem len by (intro inner_fold inner_inv_init) simp_all
      then have kf': "map kf (heap st') = map kf ?h"
        and out: "\<forall>r. r \<notin> set sameType \<longrightarrow> heap st' ! r = ?h ! r"
        and val: "\<exists>ks. validated st' = validated st @ ks \<and> set ks \<subseteq> set sameType"
        and tr: "\<exists>ts. troubles st' = troubles st @ ts \<and> (\<forall>t\<in>set ts. inner_good ?h sameType t)"
        unfolding res by (simp_all add: inner_inv_def)
      from val obtain ks where ks: "validated st' = validated st @ ks" "set ks \<subseteq> set sameType" by blast
      from tr obtain ts where ts: "troubles st' = troubles st @ ts" "\<forall>t\<in>set ts. inner_good ?h sameType t"
        by blast
      have 1: "map kf (heap st') = map kf parsed" using kf' kfeq by simp
      have 2: "'''' \<notin> set (cg @ [?pt])" using noempty nonempty by auto
      have 3: "\<forall>r<length parsed. parentType (parsed ! r) \<notin> set (cg @ [?pt]) \<longrightarrow> heap st' ! r = parsed ! r"
      proof (intro allI impI)
        fix r assume r: "r < length parsed" and "parentType (parsed ! r) \<notin> set (cg @ [?pt])"
        then have a: "parentType (parsed ! r) \<notin> set cg" and b: "parentType (parsed ! r) \<noteq> ?pt" by auto
        from nonmem [OF r b] out have "heap st' ! r = ?h ! r" by simp
        with fresh r a show "heap st' ! r = parsed ! r" by simp
      qed
      have 4: "\<forall>r\<in>set (validated st'). r < length parsed"
        using ks bound mem by auto
      have "filter ?P ks = []"
        using ks(2) mem nonempty by (auto simp: filter_empty_conv)
      then have 5: "filter ?P (validated st') = filter ?P [0..<Suc k]"
        using ks(1) pass upt by simp
      have 6: "\<forall>t\<in>set (troubles st'). good_trouble parsed t"
      proof -
        have "good_trouble parsed t" if "inner_good ?h sameType t" for t
        proof -
          from that obtain I rep body where I: "set I \<subseteq> set sameType" and rep: "rep \<in> set sameType"
            and f: "fst t = map (\<lambda>i. name (?h ! i)) I" and s: "snd t = patchedName (?h ! rep) body"
            and vv: "\<forall>i\<in>set I. variants (?h ! i) = variants (?h ! rep) \<and> value' (?h ! i) = value' (?h ! rep)"
            unfolding inner_good_def by blast
          have a: "\<forall>i\<in>set I. i < length parsed" using I mem by blast
          have b: "rep < length parsed" "parentType (parsed ! rep) \<noteq> ''''" using mem [OF rep] nonempty by simp_all
          have c: "fst t = map (\<lambda>i. name (parsed ! i)) I"
            unfolding f using I same0 by (intro map_cong) auto
          have d: "snd t = patchedName (parsed ! rep) body" using s same0 [OF rep] by simp
          have e: "\<forall>i\<in>set I. parentType (parsed ! i) = parentType (parsed ! rep) \<and>
                    variants (parsed ! i) = variants (parsed ! rep) \<and>
                    value' (parsed ! i) = value' (parsed ! rep)"
          proof
            fix i assume i: "i \<in> set I"
            with I have im: "i \<in> set sameType" by blast
            from vv i same0 [OF im] same0 [OF rep] mem [OF im] mem [OF rep]
            show "parentType (parsed ! i) = parentType (parsed ! rep) \<and>
                    variants (parsed ! i) = variants (parsed ! rep) \<and>
                    value' (parsed ! i) = value' (parsed ! rep)" by metis
          qed
          from a b c d e show ?thesis unfolding good_trouble_def by blast
        qed
        with ts good show ?thesis by auto
      qed
      from 1 2 3 4 5 6 show ?thesis unfolding step by (simp add: outer_inv_def)
    qed
  qed
qed

lemma outer_fold:
  "k \<le> length parsed \<Longrightarrow>
   outer_inv parsed k (fold (step_classname tg) [0..<k] (\<lparr>heap = parsed, validated = [], troubles = []\<rparr>, []))"
proof (induction k)
  case 0
  then show ?case by (simp add: outer_inv_def)
next
  case (Suc k)
  let ?s = "fold (step_classname tg) [0..<k] (\<lparr>heap = parsed, validated = [], troubles = []\<rparr>, [])"
  obtain st cg where s: "?s = (st, cg)" by (cases ?s)
  from Suc have "outer_inv parsed k (st, cg)" "k < length parsed" unfolding s [symmetric] by simp_all
  then have "outer_inv parsed (Suc k) (step_classname tg k (st, cg))" by (rule outer_step)
  then show ?case by (simp add: s)
qed

lemma groupAndMerge_inv:
  "\<exists>cg. outer_inv parsed (length parsed) (groupAndMerge tg parsed, cg)"
proof -
  let ?s = "fold (step_classname tg) [0..<length parsed] (\<lparr>heap = parsed, validated = [], troubles = []\<rparr>, [])"
  have "outer_inv parsed (length parsed) ?s" by (rule outer_fold) simp
  moreover have "?s = (groupAndMerge tg parsed, snd ?s)" by (simp add: groupAndMerge_def)
  ultimately show ?thesis by metis
qed

lemma troubles_good: "t \<in> set (troubles (groupAndMerge tg parsed)) \<Longrightarrow> good_trouble parsed t"
  using groupAndMerge_inv [of parsed tg] by (auto simp: outer_inv_def)

section \<open>The lookup of a body\<close>

lemma find_None_iff': "find P xs = None \<longleftrightarrow> (\<forall>x\<in>set xs. \<not> P x)"
  by (induction xs) auto

lemma find_Some_mem: "find P xs = Some x \<Longrightarrow> x \<in> set xs \<and> P x"
  by (induction xs) (auto split: if_splits)

lemma getBody_absent:
  assumes "\<forall>g\<in>set tg. \<forall>m\<in>set (g_members g). f_type m = pt \<longrightarrow> (\<forall>e\<in>set (f_members m). e_shorthand e \<noteq> sh)"
  shows "getBodyByShorthand tg pt sh = ''''"
proof (cases "find (\<lambda>obj. findByMemberType pt obj \<noteq> None) tg")
  case None
  then show ?thesis by (simp add: getBodyByShorthand_def)
next
  case mg: (Some mainGroup)
  then have g: "mainGroup \<in> set tg" by (simp add: find_Some_mem)
  show ?thesis
  proof (cases "find (\<lambda>m. f_type m = pt) (g_members mainGroup)")
    case None
    with mg show ?thesis by (simp add: getBodyByShorthand_def)
  next
    case (Some typeGroup)
    then have m: "typeGroup \<in> set (g_members mainGroup)" "f_type typeGroup = pt"
      using find_Some_mem [of "\<lambda>m. f_type m = pt" "g_members mainGroup" typeGroup] by simp_all
    with g assms have "\<forall>e\<in>set (f_members typeGroup). e_shorthand e \<noteq> sh" by blast
    then have "find (\<lambda>m. e_shorthand m = sh) (f_members typeGroup) = None"
      by (simp add: find_None_iff')
    with Some mg show ?thesis by (simp add: getBodyByShorthand_def)
  qed
qed

section \<open>The report loop\<close>

lemma forEach_issue_same: "forEach_issue v seg ts v = ([], v)"
  by (induction ts) auto

lemma forEach_issue_sources:
  "r \<in> set (fst (forEach_issue op seg ts v)) \<Longrightarrow>
     \<exists>t\<in>set ts. classnames r = join '', '' (fst t) \<and> shorthand_name r = snd t"
proof (induction ts arbitrary: v)
  case Nil
  then show ?case by simp
next
  case (Cons t ts)
  show ?case
  proof (cases "op = v")
    case True
    with Cons show ?thesis by auto
  next
    case False
    let ?v' = "prefix seg @ v @ suffix seg"
    from False Cons.prems
    have "r = \<lparr>classnames = join '', '' (fst t), shorthand_name = snd t,
                fix_range = (start seg, end' seg), fix_text = ?v'\<rparr>
          \<or> r \<in> set (fst (forEach_issue op seg ts ?v'))"
      by (auto simp: Let_def split: prod.splits)
    then show ?thesis using Cons.IH [of ?v'] by auto
  qed
qed

lemma forEach_issue_length: "length (fst (forEach_issue op seg ts v)) \<le> length ts"
proof (induction ts arbitrary: v)
  case Nil
  then show ?case by simp
next
  case (Cons t ts)
  from Cons [of v] Cons [of "prefix seg @ v @ suffix seg"] show ?case
    by (auto simp: Let_def split: prod.splits)
qed

text \<open>Without a prefix and a suffix the variable never changes: every report has the same text.\<close>

lemma forEach_issue_no_affixes:
  assumes "prefix seg = ''''" "suffix seg = ''''"
  shows "snd (forEach_issue op seg ts v) = v \<and> (\<forall>r\<in>set (fst (forEach_issue op seg ts v)). fix_text r = v)"
proof (induction ts)
  case Nil
  then show ?case by simp
next
  case (Cons t ts)
  obtain rs vf where rec: "forEach_issue op seg ts v = (rs, vf)" by (cases "forEach_issue op seg ts v")
  with Cons have "vf = v" "\<forall>r\<in>set rs. fix_text r = v" by simp_all
  with rec assms show ?case by (auto simp: Let_def)
qed

lemma reports_analyseParsed:
  "reports (analyseParsed tg seg isSingle b a parsed) =
     fst (reportTroubles seg isSingle (troubles (groupAndMerge tg parsed))
            (assemble isSingle b a (validatedObjects (groupAndMerge tg parsed))))"
  by (simp add: analyseParsed_def Let_def split: prod.splits)

text \<open>
  In an attribute or a string literal, where there is no prefix and no suffix, every report
  of a segment carries the assembled text.
\<close>

lemma fix_text_same_without_affixes:
  assumes "prefix seg = ''''" "suffix seg = ''''"
    and "r \<in> set (reports (analyseParsed tg seg isSingle beforeWs afterWs parsed))"
  shows "fix_text r = assemble isSingle beforeWs afterWs (validatedObjects (groupAndMerge tg parsed))"
  using assms(3) forEach_issue_no_affixes [OF assms(1,2)]
  unfolding reports_analyseParsed reportTroubles_def Let_def by blast

text \<open>The reports of \<^verbatim>\<open>parseForShorthandCandidates\<close> are those of the analysis of the parsed objects.\<close>

lemma parseForShorthandCandidates_cases:
  "parseForShorthandCandidates getClassNames isSingleLine parseClassname tg seg
     = \<lparr>parsed_objects = [], reports = [], final_text = ''''\<rparr> \<or>
   (\<exists>beforeWs afterWs parsed.
      parseForShorthandCandidates getClassNames isSingleLine parseClassname tg seg
        = analyseParsed tg seg (isSingleLine (originalClassNamesValue seg)) beforeWs afterWs parsed)"
  by (auto simp: parseForShorthandCandidates_def Let_def split: prod.splits)

section \<open>Sets at rest\<close>

lemma someShorthand_codes: "someShorthand h S ks \<longleftrightarrow> set (codes h S) \<inter> set ks \<noteq> {}"
  by (auto simp: someShorthand_def codes_def array_includes_def list_ex_iff)

lemmas flag_defs = hasTL_def hasTR_def hasBR_def hasBL_def hasT_def hasR_def hasB_def hasL_def
  hasX_def hasY_def hasAll_def someShorthand_codes

lemma code_branch_cong:
  assumes "set (codes h S) = set (codes h' S')"
  shows "code_branch pt h S = code_branch pt h' S'"
  unfolding code_branch_def flag_defs assms ..

lemma quiet_cong:
  assumes "set (codes h S) = set (codes h' S')"
  shows "quiet pt h S = quiet pt h' S'"
  unfolding quiet_def code_branch_cong [OF assms] assms ..

lemma members_with_empty: "set (codes h S) \<inter> set ks = {} \<Longrightarrow> members_with h ks S = []"
  by (auto simp: members_with_def codes_def filter_empty_conv)

lemma quiet_mergeSet:
  assumes "quiet pt (heap st) S"
  shows "troubles (mergeSet tg pt cls S st) = troubles st \<or>
         (\<exists>pn. troubles (mergeSet tg pt cls S st) = troubles st @ [([], pn)])"
  using assms unfolding mergeSet_eq_apply_branch quiet_def
  by (cases "code_branch pt (heap st) S")
     (simp_all add: apply_branch_def commitMerge_simps members_with_empty)

lemma axis_x_quiet:
  assumes "code_branch pt h S = MergeAxis ''x''"
    and "''x'' \<in> set (codes h' Out)"
    and "set (codes h' Out) \<subseteq> insert ''x'' (set (codes h S) \<inter> {''t'', ''b''})"
  shows "quiet pt h' Out"
proof -
  let ?C = "set (codes h S)" and ?D = "set (codes h' Out)"
  from assms(1) have noY: "\<not> hasY pt h S"
    by (auto simp: code_branch_def split: if_splits)
  have D: "?D \<subseteq> {''x'', ''t'', ''b''}" using assms(3) by auto
  have t: "''t'' \<in> ?D \<Longrightarrow> ''t'' \<in> ?C" and b: "''b'' \<in> ?D \<Longrightarrow> ''b'' \<in> ?C"
    using assms(3) by auto
  have hT: "hasT pt h' Out \<Longrightarrow> hasT pt h S" using D t unfolding flag_defs by auto
  have hB: "hasB pt h' Out \<Longrightarrow> hasB pt h S" using D b unfolding flag_defs by auto
  have noall': "\<not> someShorthand h' Out [''all'']" using D unfolding flag_defs by auto
  have X': "hasX pt h' Out" using assms(2) unfolding flag_defs by auto
  have noY': "\<not> hasY pt h' Out"
  proof
    assume "hasY pt h' Out"
    then have "hasT pt h' Out \<and> hasB pt h' Out" using D unfolding hasY_def someShorthand_codes by auto
    with hT hB have "hasY pt h S" by (simp add: hasY_def)
    with noY show False ..
  qed
  have "code_branch pt h' Out = MergeAxis ''x''"
    using noall' X' noY' by (simp add: code_branch_def)
  moreover have "?D \<inter> set (axis_sides ''x'') = {}" using D by (auto simp: axis_sides_def)
  ultimately show ?thesis by (simp add: quiet_def)
qed

lemma axis_y_quiet:
  assumes "code_branch pt h S = MergeAxis ''y''"
    and "''y'' \<in> set (codes h' Out)"
    and "set (codes h' Out) \<subseteq> insert ''y'' (set (codes h S) \<inter> {''l'', ''r''})"
  shows "quiet pt h' Out"
proof -
  let ?C = "set (codes h S)" and ?D = "set (codes h' Out)"
  from assms(1) have noX: "\<not> hasX pt h S"
    by (auto simp: code_branch_def split: if_splits)
  have D: "?D \<subseteq> {''y'', ''l'', ''r''}" using assms(3) by auto
  have l: "''l'' \<in> ?D \<Longrightarrow> ''l'' \<in> ?C" and r: "''r'' \<in> ?D \<Longrightarrow> ''r'' \<in> ?C"
    using assms(3) by auto
  have hL: "hasL pt h' Out \<Longrightarrow> hasL pt h S" using D l unfolding flag_defs by auto
  have hR: "hasR pt h' Out \<Longrightarrow> hasR pt h S" using D r unfolding flag_defs by auto
  have noall': "\<not> someShorthand h' Out [''all'']" using D unfolding flag_defs by auto
  have Y': "hasY pt h' Out" using assms(2) unfolding flag_defs by auto
  have noX': "\<not> hasX pt h' Out"
  proof
    assume "hasX pt h' Out"
    then have "hasL pt h' Out \<and> hasR pt h' Out" using D unfolding hasX_def someShorthand_codes by auto
    with hL hR have "hasX pt h S" by (simp add: hasX_def)
    with noX show False ..
  qed
  have "code_branch pt h' Out = MergeAxis ''y''"
    using noall' Y' noX' by (simp add: code_branch_def)
  moreover have "?D \<inter> set (axis_sides ''y'') = {}" using D by (auto simp: axis_sides_def)
  ultimately show ?thesis by (simp add: quiet_def)
qed

lemma side_facts:
  assumes "code_branch pt h S = MergeSide s"
  shows "supportCorners pt" "\<not> hasX pt h S" "\<not> hasY pt h S"
    "s = ''t'' \<or> s = ''r'' \<or> s = ''b'' \<or> s = ''l''"
    "s = ''t'' \<Longrightarrow> hasT pt h S"
    "s = ''r'' \<Longrightarrow> \<not> hasT pt h S \<and> hasR pt h S"
    "s = ''b'' \<Longrightarrow> \<not> hasT pt h S \<and> \<not> hasR pt h S \<and> hasB pt h S"
    "s = ''l'' \<Longrightarrow> \<not> hasT pt h S \<and> \<not> hasR pt h S \<and> \<not> hasB pt h S \<and> hasL pt h S"
  using assms by (auto simp: code_branch_def split: if_splits)

lemma side_t_quiet:
  assumes "code_branch pt h S = MergeSide ''t''"
    and "''t'' \<in> set (codes h' Out)"
    and "set (codes h' Out) \<subseteq> insert ''t'' (set (codes h S) \<inter> {''bl'', ''br''})"
  shows "quiet pt h' Out"
proof -
  let ?C = "set (codes h S)" and ?D = "set (codes h' Out)"
  note f = side_facts [OF assms(1)]
  have D: "?D \<subseteq> {''t'', ''bl'', ''br''}" using assms(3) by auto
  have sub: "''bl'' \<in> ?D \<Longrightarrow> ''bl'' \<in> ?C" "''br'' \<in> ?D \<Longrightarrow> ''br'' \<in> ?C"
    using assms(3) by auto
  have noB: "\<not> hasB pt h S" using f(3,5) by (auto simp: hasY_def)
  have both: "\<not> (''bl'' \<in> ?D \<and> ''br'' \<in> ?D)"
    using noB sub f(1) unfolding flag_defs by auto
  have noall': "\<not> someShorthand h' Out [''all'']" using D unfolding flag_defs by auto
  have T': "hasT pt h' Out" using assms(2) unfolding flag_defs by auto
  have noB': "\<not> hasB pt h' Out" using D both unfolding flag_defs by auto
  have noR': "\<not> (hasL pt h' Out \<and> hasR pt h' Out)" using D both unfolding flag_defs by auto
  have noX': "\<not> hasX pt h' Out" using D noR' unfolding hasX_def someShorthand_codes by auto
  have noY': "\<not> hasY pt h' Out" using D noB' unfolding hasY_def someShorthand_codes by auto
  have "code_branch pt h' Out = MergeSide ''t''"
    using noall' T' noX' noY' f(1) by (simp add: code_branch_def)
  moreover have "?D \<inter> set (side_corners ''t'') = {}" using D by (auto simp: side_corners_def)
  ultimately show ?thesis by (simp add: quiet_def)
qed

lemma side_r_quiet:
  assumes "code_branch pt h S = MergeSide ''r''"
    and "''r'' \<in> set (codes h' Out)"
    and "set (codes h' Out) \<subseteq> insert ''r'' (set (codes h S) \<inter> {''tl'', ''bl''})"
  shows "quiet pt h' Out"
proof -
  let ?C = "set (codes h S)" and ?D = "set (codes h' Out)"
  note f = side_facts [OF assms(1)]
  have D: "?D \<subseteq> {''r'', ''tl'', ''bl''}" using assms(3) by auto
  have sub: "''tl'' \<in> ?D \<Longrightarrow> ''tl'' \<in> ?C" "''bl'' \<in> ?D \<Longrightarrow> ''bl'' \<in> ?C"
    using assms(3) by auto
  have noL: "\<not> hasL pt h S" using f(2,6) by (auto simp: hasX_def)
  have both: "\<not> (''tl'' \<in> ?D \<and> ''bl'' \<in> ?D)"
    using noL sub f(1) unfolding flag_defs by auto
  have noall': "\<not> someShorthand h' Out [''all'']" using D unfolding flag_defs by auto
  have noT': "\<not> hasT pt h' Out" using D unfolding flag_defs by auto
  have R': "hasR pt h' Out" using assms(2) unfolding flag_defs by auto
  have noL': "\<not> hasL pt h' Out" using D both unfolding flag_defs by auto
  have noX': "\<not> hasX pt h' Out" using D noL' unfolding hasX_def someShorthand_codes by auto
  have noY': "\<not> hasY pt h' Out" using D noT' unfolding hasY_def someShorthand_codes by auto
  have "code_branch pt h' Out = MergeSide ''r''"
    using noall' noT' R' noX' noY' f(1) by (simp add: code_branch_def)
  moreover have "?D \<inter> set (side_corners ''r'') = {}" using D by (auto simp: side_corners_def)
  ultimately show ?thesis by (simp add: quiet_def)
qed

lemma side_b_quiet:
  assumes "code_branch pt h S = MergeSide ''b''"
    and "''b'' \<in> set (codes h' Out)"
    and "set (codes h' Out) \<subseteq> insert ''b'' (set (codes h S) \<inter> {''tl'', ''tr''})"
  shows "quiet pt h' Out"
proof -
  let ?C = "set (codes h S)" and ?D = "set (codes h' Out)"
  note f = side_facts [OF assms(1)]
  have D: "?D \<subseteq> {''b'', ''tl'', ''tr''}" using assms(3) by auto
  have sub: "''tl'' \<in> ?D \<Longrightarrow> ''tl'' \<in> ?C" "''tr'' \<in> ?D \<Longrightarrow> ''tr'' \<in> ?C"
    using assms(3) by auto
  from f(7) have noT: "\<not> hasT pt h S" and noR: "\<not> hasR pt h S" and B: "hasB pt h S" by simp_all
  have notr: "''tr'' \<notin> ?D"
    using noR B sub f(1) unfolding flag_defs by auto
  have noall': "\<not> someShorthand h' Out [''all'']" using D unfolding flag_defs by auto
  have noT': "\<not> hasT pt h' Out" using D notr unfolding flag_defs by auto
  have noR': "\<not> hasR pt h' Out" using D notr unfolding flag_defs by auto
  have B': "hasB pt h' Out" using assms(2) unfolding flag_defs by auto
  have noX': "\<not> hasX pt h' Out" using D noR' unfolding hasX_def someShorthand_codes by auto
  have noY': "\<not> hasY pt h' Out" using D noT' unfolding hasY_def someShorthand_codes by auto
  have "code_branch pt h' Out = MergeSide ''b''"
    using noall' noT' noR' B' noX' noY' f(1) by (simp add: code_branch_def)
  moreover have "?D \<inter> set (side_corners ''b'') = {}" using D by (auto simp: side_corners_def)
  ultimately show ?thesis by (simp add: quiet_def)
qed

lemma side_l_quiet:
  assumes "code_branch pt h S = MergeSide ''l''"
    and "''l'' \<in> set (codes h' Out)"
    and "set (codes h' Out) \<subseteq> insert ''l'' (set (codes h S) \<inter> {''tr'', ''br''})"
  shows "quiet pt h' Out"
proof -
  let ?C = "set (codes h S)" and ?D = "set (codes h' Out)"
  note f = side_facts [OF assms(1)]
  have D: "?D \<subseteq> {''l'', ''tr'', ''br''}" using assms(3) by auto
  have sub: "''tr'' \<in> ?D \<Longrightarrow> ''tr'' \<in> ?C" "''br'' \<in> ?D \<Longrightarrow> ''br'' \<in> ?C"
    using assms(3) by auto
  from f(8) have noR: "\<not> hasR pt h S" by simp
  have both: "\<not> (''tr'' \<in> ?D \<and> ''br'' \<in> ?D)"
    using noR sub f(1) unfolding flag_defs by auto
  have noall': "\<not> someShorthand h' Out [''all'']" using D unfolding flag_defs by auto
  have noT': "\<not> hasT pt h' Out" using D unfolding flag_defs by auto
  have noR': "\<not> hasR pt h' Out" using D both unfolding flag_defs by auto
  have noB': "\<not> hasB pt h' Out" using D unfolding flag_defs by auto
  have L': "hasL pt h' Out" using assms(2) unfolding flag_defs by auto
  have noX': "\<not> hasX pt h' Out" using D noR' unfolding hasX_def someShorthand_codes by auto
  have noY': "\<not> hasY pt h' Out" using D noT' unfolding hasY_def someShorthand_codes by auto
  have "code_branch pt h' Out = MergeSide ''l''"
    using noall' noT' noR' noB' L' noX' noY' f(1) by (simp add: code_branch_def)
  moreover have "?D \<inter> set (side_corners ''l'') = {}" using D by (auto simp: side_corners_def)
  ultimately show ?thesis by (simp add: quiet_def)
qed

section \<open>What a run leaves is settled\<close>

lemma sameVariantAndValue_mem:
  "r \<in> set (sameVariantAndValue h sameType cls) \<longleftrightarrow>
     r \<in> set sameType \<and> variants (h ! r) = variants (h ! cls) \<and> value' (h ! r) = value' (h ! cls)"
  by (auto simp: sameVariantAndValue_def)

lemma sameVariantAndValue_cong:
  assumes "map kf h = map kf h0" "\<forall>r\<in>set sameType. r < length h0" "cls \<in> set sameType"
  shows "sameVariantAndValue h sameType cls = sameVariantAndValue h0 sameType cls"
proof -
  from assms(1) have len: "length h = length h0" by (metis length_map)
  have "variants (h ! r) = variants (h0 ! r) \<and> value' (h ! r) = value' (h0 ! r)"
    if "r \<in> set sameType" for r
    using kf_nth [OF assms(1), of r] that assms(2) len by simp
  then show ?thesis
    unfolding sameVariantAndValue_def using assms(3) by (intro filter_cong) auto
qed

text \<open>One step of the inner loop: the key is checked and nothing happens, or it is new and
  the set of \<open>cls\<close>, none of whose members has been written, is handled.\<close>

lemma step_cls_cases:
  assumes inv: "inner_inv h0 sameType v0 t0 (st, cvv)"
    and cls: "cls \<in> set sameType"
    and bound: "\<forall>r\<in>set sameType. r < length h0"
  shows "(variants (h0 ! cls) @ value' (h0 ! cls) \<in> set cvv \<and>
            step_cls tg c sameType cls (st, cvv) = (st, cvv)) \<or>
         (variants (h0 ! cls) @ value' (h0 ! cls) \<notin> set cvv \<and>
            step_cls tg c sameType cls (st, cvv)
              = (handleSet tg c cls (sameVariantAndValue h0 sameType cls) st,
                 cvv @ [variants (h0 ! cls) @ value' (h0 ! cls)]) \<and>
            (\<forall>r\<in>set (sameVariantAndValue h0 sameType cls). heap st ! r = h0 ! r))"
proof -
  let ?h = "heap st"
  let ?key = "variants (h0 ! cls) @ value' (h0 ! cls)"
  from inv have kfeq: "map kf ?h = map kf h0"
    and fresh: "\<forall>r\<in>set sameType. variants (h0 ! r) @ value' (h0 ! r) \<notin> set cvv \<longrightarrow> ?h ! r = h0 ! r"
    by (simp_all add: inner_inv_def)
  from kfeq have len: "length ?h = length h0" by (metis length_map)
  have key: "variants (?h ! cls) @ value' (?h ! cls) = ?key"
    using kf_nth [OF kfeq, of cls] cls bound len by simp
  have S: "sameVariantAndValue ?h sameType cls = sameVariantAndValue h0 sameType cls"
    using kfeq bound cls by (rule sameVariantAndValue_cong)
  show ?thesis
  proof (cases "?key \<in> set cvv")
    case True
    then show ?thesis using key by (simp add: step_cls_def Let_def array_includes_def)
  next
    case False
    have "?h ! r = h0 ! r" if "r \<in> set (sameVariantAndValue h0 sameType cls)" for r
    proof -
      from that have "r \<in> set sameType" "variants (h0 ! r) @ value' (h0 ! r) = ?key"
        by (simp_all add: sameVariantAndValue_mem)
      with fresh False show ?thesis by simp
    qed
    with False show ?thesis using key S by (simp add: step_cls_def Let_def array_includes_def)
  qed
qed

lemma codes_after_merge:
  assumes "cls < length h"
  shows "sh \<in> set (codes (h[cls := (h ! cls)\<lparr>name := pn, shorthand := sh\<rparr>]) (cls # kept))"
    and "set (codes (h[cls := (h ! cls)\<lparr>name := pn, shorthand := sh\<rparr>]) (cls # kept))
           \<subseteq> insert sh (set (codes h kept))"
  using assms by (auto simp: codes_def nth_list_update)

lemma codes_members_with: "set (codes h (members_with h K S)) \<subseteq> set (codes h S) \<inter> set K"
  by (auto simp: codes_def members_with_def)

lemma code_branch_axis: "code_branch pt h S = MergeAxis a \<Longrightarrow> a = ''x'' \<or> a = ''y''"
  by (auto simp: code_branch_def split: if_splits)

text \<open>What the merge adds to \<^verbatim>\<open>validated\<close> is one reference or a set at rest.\<close>

lemma mergeSet_effect:
  assumes cls: "cls < length (heap st)"
  shows "\<exists>Out. validated (mergeSet tg pt cls S st) = validated st @ Out \<and>
               set Out \<subseteq> insert cls (set S) \<and>
               (length Out \<le> 1 \<or> quiet pt (heap (mergeSet tg pt cls S st)) Out)"
proof -
  let ?h = "heap st"
  let ?res = "code_branch pt ?h S"
  show ?thesis
  proof (cases ?res)
    case MergeAll
    then have "validated (mergeSet tg pt cls S st) = validated st @ [cls]"
      by (simp add: mergeSet_eq_apply_branch apply_branch_def commitMerge_simps)
    then show ?thesis by (intro exI [of _ "[cls]"]) simp
  next
    case (MergeAxis a)
    let ?kept = "members_with ?h (axis_sides (other_axis a)) S"
    let ?h' = "?h[cls := (?h ! cls)\<lparr>name := patchedName (?h ! cls) (getBodyByShorthand tg pt a), shorthand := a\<rparr>]"
    have st': "validated (mergeSet tg pt cls S st) = validated st @ cls # ?kept"
      "heap (mergeSet tg pt cls S st) = ?h'"
      using MergeAxis by (simp_all add: mergeSet_eq_apply_branch apply_branch_def commitMerge_def)
    have sub: "set (cls # ?kept) \<subseteq> insert cls (set S)" by (auto simp: members_with_def)
    have a: "a \<in> set (codes ?h' (cls # ?kept))" using cls by (rule codes_after_merge)
    have b: "set (codes ?h' (cls # ?kept)) \<subseteq> insert a (set (codes ?h S) \<inter> set (axis_sides (other_axis a)))"
      using codes_after_merge(2) [OF cls, where sh = a and kept = ?kept] codes_members_with [of ?h "axis_sides (other_axis a)" S]
      by blast
    from code_branch_axis [OF MergeAxis] have "quiet pt ?h' (cls # ?kept)"
    proof
      assume x: "a = ''x''"
      with MergeAxis a b show ?thesis
        by (intro axis_x_quiet [of pt ?h S]) (simp_all add: axis_sides_def other_axis_def)
    next
      assume y: "a = ''y''"
      with MergeAxis a b show ?thesis
        by (intro axis_y_quiet [of pt ?h S]) (simp_all add: axis_sides_def other_axis_def)
    qed
    with st' sub show ?thesis by (intro exI [of _ "cls # ?kept"]) simp
  next
    case (MergeSide s)
    let ?kept = "members_with ?h (side_corners (opposite_side s)) S"
    let ?h' = "?h[cls := (?h ! cls)\<lparr>name := patchedName (?h ! cls) (getBodyByShorthand tg pt s), shorthand := s\<rparr>]"
    have st': "validated (mergeSet tg pt cls S st) = validated st @ cls # ?kept"
      "heap (mergeSet tg pt cls S st) = ?h'"
      using MergeSide by (simp_all add: mergeSet_eq_apply_branch apply_branch_def commitMerge_def)
    have sub: "set (cls # ?kept) \<subseteq> insert cls (set S)" by (auto simp: members_with_def)
    have a: "s \<in> set (codes ?h' (cls # ?kept))" using cls by (rule codes_after_merge)
    have b: "set (codes ?h' (cls # ?kept)) \<subseteq> insert s (set (codes ?h S) \<inter> set (side_corners (opposite_side s)))"
      using codes_after_merge(2) [OF cls, where sh = s and kept = ?kept] codes_members_with [of ?h "side_corners (opposite_side s)" S]
      by blast
    from side_facts(4) [OF MergeSide] have "quiet pt ?h' (cls # ?kept)"
    proof (elim disjE)
      assume "s = ''t''"
      with MergeSide a b show ?thesis
        by (intro side_t_quiet [of pt ?h S]) (simp_all add: side_corners_def opposite_side_def)
    next
      assume "s = ''r''"
      with MergeSide a b show ?thesis
        by (intro side_r_quiet [of pt ?h S]) (simp_all add: side_corners_def opposite_side_def)
    next
      assume "s = ''b''"
      with MergeSide a b show ?thesis
        by (intro side_b_quiet [of pt ?h S]) (simp_all add: side_corners_def opposite_side_def)
    next
      assume "s = ''l''"
      with MergeSide a b show ?thesis
        by (intro side_l_quiet [of pt ?h S]) (simp_all add: side_corners_def opposite_side_def)
    qed
    with st' sub show ?thesis by (intro exI [of _ "cls # ?kept"]) simp
  next
    case KeepAll
    then have st': "validated (mergeSet tg pt cls S st) = validated st @ S"
      "heap (mergeSet tg pt cls S st) = ?h"
      by (simp_all add: mergeSet_eq_apply_branch apply_branch_def)
    have "quiet pt ?h S" using KeepAll by (simp add: quiet_def)
    with st' show ?thesis by (intro exI [of _ S]) auto
  qed
qed

lemma heap_mergeSet_other: "r \<noteq> cls \<Longrightarrow> heap (mergeSet tg pt cls S st) ! r = heap st ! r"
  using mergeSet_shape [of tg pt cls S st] by (auto simp: commitMerge_simps)

lemma handleSet_effect:
  assumes cls: "cls < length (heap st)" "cls \<in> set S"
  shows "\<exists>Out. validated (handleSet tg c cls S st) = validated st @ Out \<and>
               set Out \<subseteq> set S \<and>
               (length Out \<le> 1 \<or> quiet (parentType (heap st ! c)) (heap (handleSet tg c cls S st)) Out)"
proof (cases "length S = 1")
  case True
  then have "validated (handleSet tg c cls S st) = validated st @ [cls]" by (simp add: handleSet_def)
  with cls show ?thesis by (intro exI [of _ "[cls]"]) simp
next
  case False
  with cls(2) have "handleSet tg c cls S st = mergeSet tg (parentType (heap st ! c)) cls S st"
    by (cases S) (simp_all add: handleSet_def)
  with mergeSet_effect [OF cls(1), of tg "parentType (heap st ! c)" S] cls(2) show ?thesis
    by (auto simp: insert_absorb)
qed

lemma heap_handleSet_other: "r \<noteq> cls \<Longrightarrow> heap (handleSet tg c cls S st) ! r = heap st ! r"
  by (simp add: handleSet_def heap_mergeSet_other)

lemma codes_cong: "(\<And>r. r \<in> set F \<Longrightarrow> h' ! r = h ! r) \<Longrightarrow> codes h' F = codes h F"
  by (simp add: codes_def)

lemma inner_step2:
  assumes inv: "inner_inv h0 sameType v0 t0 (st, cvv)"
    and inv2: "inner_inv2 pt h0 v0 (st, cvv)"
    and cls: "cls \<in> set sameType"
    and bound: "\<forall>r\<in>set sameType. r < length h0"
    and c: "c < length h0" "parentType (h0 ! c) = pt"
  shows "inner_inv2 pt h0 v0 (step_cls tg c sameType cls (st, cvv))"
proof -
  let ?key = "variants (h0 ! cls) @ value' (h0 ! cls)"
  let ?S = "sameVariantAndValue h0 sameType cls"
  let ?st' = "handleSet tg c cls ?S st"
  from step_cls_cases [OF inv cls bound, of tg c] show ?thesis
  proof (elim disjE conjE)
    assume "step_cls tg c sameType cls (st, cvv) = (st, cvv)"
    with inv2 show ?thesis by simp
  next
    assume new: "?key \<notin> set cvv"
      and step: "step_cls tg c sameType cls (st, cvv) = (?st', cvv @ [?key])"
      and Sfresh: "\<forall>r\<in>set ?S. heap st ! r = h0 ! r"
    from inv have kfeq: "map kf (heap st) = map kf h0"
      and val: "\<exists>ks. validated st = v0 @ ks \<and> set ks \<subseteq> set sameType"
      by (simp_all add: inner_inv_def)
    from kfeq have len: "length (heap st) = length h0" by (metis length_map)
    from val obtain ks where ks: "validated st = v0 @ ks" by blast
    then have dks: "drop (length v0) (validated st) = ks" by simp
    from inv2 have prov: "\<forall>r\<in>set ks. variants (h0 ! r) @ value' (h0 ! r) \<in> set cvv"
      and sett: "settled_in pt h0 (heap st) ks"
      using dks by (simp_all add: inner_inv2_def)
    have pt: "parentType (heap st ! c) = pt" using kf_nth(1) [OF kfeq, of c] c len by simp
    have clsS: "cls \<in> set ?S" using cls by (simp add: sameVariantAndValue_mem)
    have clsb: "cls < length (heap st)" using cls bound len by simp
    from handleSet_effect [OF clsb clsS, of tg c] obtain Out where
      out: "validated ?st' = validated st @ Out" "set Out \<subseteq> set ?S"
        "length Out \<le> 1 \<or> quiet pt (heap ?st') Out"
      unfolding pt by blast
    have dks': "drop (length v0) (validated ?st') = ks @ Out" using out(1) ks by simp
    have OutS: "variants (h0 ! r) = variants (h0 ! cls) \<and> value' (h0 ! r) = value' (h0 ! cls)"
      if "r \<in> set Out" for r using that out(2) by (auto simp: sameVariantAndValue_mem)
    have prov': "\<forall>r\<in>set (ks @ Out). variants (h0 ! r) @ value' (h0 ! r) \<in> set (cvv @ [?key])"
      using prov OutS by auto
    have sett': "settled_in pt h0 (heap ?st') (ks @ Out)"
      unfolding settled_in_def
    proof (intro allI)
      fix v w
      let ?P = "\<lambda>r. variants (h0 ! r) = v \<and> value' (h0 ! r) = w"
      show "length (filter ?P (ks @ Out)) \<le> 1 \<or> quiet pt (heap ?st') (filter ?P (ks @ Out))"
      proof (cases "?P cls")
        case True
        have "filter ?P ks = []"
        proof (rule ccontr)
          assume "filter ?P ks \<noteq> []"
          then obtain r where r: "r \<in> set ks" "?P r" by (auto simp: filter_empty_conv)
          with True have "variants (h0 ! r) @ value' (h0 ! r) = ?key" by simp
          with prov r(1) new show False by auto
        qed
        moreover have "filter ?P Out = Out" using OutS True by (intro filter_True) simp
        ultimately have "filter ?P (ks @ Out) = Out" by simp
        with out(3) show ?thesis by simp
      next
        case False
        have "filter ?P Out = []" using OutS False by (auto simp: filter_empty_conv)
        then have eq: "filter ?P (ks @ Out) = filter ?P ks" by simp
        have "cls \<notin> set (filter ?P ks)" using False by simp
        then have "codes (heap ?st') (filter ?P ks) = codes (heap st) (filter ?P ks)"
          by (intro codes_cong heap_handleSet_other) blast
        then have "quiet pt (heap ?st') (filter ?P ks) = quiet pt (heap st) (filter ?P ks)"
          by (intro quiet_cong) simp
        with sett show ?thesis unfolding eq settled_in_def by blast
      qed
    qed
    from prov' sett' show ?thesis unfolding step by (simp add: inner_inv2_def dks')
  qed
qed

lemma inner_fold2:
  assumes "set xs \<subseteq> set sameType" "\<forall>r\<in>set sameType. r < length h0"
    and "c < length h0" "parentType (h0 ! c) = pt"
    and "inner_inv h0 sameType v0 t0 s" "inner_inv2 pt h0 v0 s"
  shows "inner_inv2 pt h0 v0 (fold (step_cls tg c sameType) xs s)"
  using assms
proof (induction xs arbitrary: s)
  case Nil
  then show ?case by simp
next
  case (Cons x xs)
  obtain st cvv where s: "s = (st, cvv)" by (cases s)
  from Cons.prems have x: "x \<in> set sameType" and xs: "set xs \<subseteq> set sameType" by simp_all
  have 1: "inner_inv h0 sameType v0 t0 (step_cls tg c sameType x s)"
    using Cons.prems(5) x Cons.prems(2) unfolding s by (rule inner_step)
  have 2: "inner_inv2 pt h0 v0 (step_cls tg c sameType x s)"
    using Cons.prems(5,6) x Cons.prems(2,3,4) unfolding s by (rule inner_step2)
  from Cons.IH [OF xs Cons.prems(2,3,4) 1 2] show ?case by simp
qed

lemma inner_inv2_init: "inner_inv2 pt (heap st) (validated st) (st, [])"
  by (simp add: inner_inv2_def settled_in_def)

lemma outer_step2:
  assumes inv: "outer_inv parsed k (st, cg)" and inv2: "outer_inv2 parsed (st, cg)"
    and k: "k < length parsed"
  shows "outer_inv2 parsed (step_classname tg k (st, cg))"
proof -
  let ?h = "heap st"
  let ?pt = "parentType (?h ! k)"
  let ?F = "\<lambda>pt v w. filter (\<lambda>r. parentType (parsed ! r) = pt \<and> variants (parsed ! r) = v \<and>
                                   value' (parsed ! r) = w)"
  from inv have kfeq: "map kf ?h = map kf parsed"
    and noempty: "'''' \<notin> set cg"
    and fresh: "\<forall>r<length parsed. parentType (parsed ! r) \<notin> set cg \<longrightarrow> ?h ! r = parsed ! r"
    and bound: "\<forall>r\<in>set (validated st). r < length parsed"
    by (simp_all add: outer_inv_def)
  from inv2 have prov: "\<forall>r\<in>set (validated st). parentType (parsed ! r) = '''' \<or> parentType (parsed ! r) \<in> set cg"
    and sett: "\<And>pt v w. pt \<noteq> '''' \<Longrightarrow> length (?F pt v w (validated st)) \<le> 1 \<or>
                 quiet pt ?h (?F pt v w (validated st))"
    by (simp_all add: outer_inv2_def)
  from kfeq have len: "length ?h = length parsed" by (metis length_map)
  have ptr: "parentType (?h ! r) = parentType (parsed ! r)" if "r < length parsed" for r
    using kf_nth(1) [OF kfeq, of r] that len by simp
  have ptk: "?pt = parentType (parsed ! k)" using ptr [OF k] .
  show ?thesis
  proof (cases "?pt = ''''")
    case True
    then have step: "step_classname tg k (st, cg) = (st\<lparr>validated := validated st @ [k]\<rparr>, cg)"
      by (simp add: step_classname_def Let_def)
    have "?F pt v w (validated st @ [k]) = ?F pt v w (validated st)" if "pt \<noteq> ''''" for pt v w
      using that True ptk by auto
    with prov sett True ptk show ?thesis unfolding step by (simp add: outer_inv2_def)
  next
    case nonempty: False
    show ?thesis
    proof (cases "array_includes cg ?pt")
      case True
      then have step: "step_classname tg k (st, cg) = (st, cg)"
        using nonempty by (simp add: step_classname_def Let_def)
      from inv2 show ?thesis unfolding step .
    next
      case False
      then have new: "?pt \<notin> set cg" by (simp add: array_includes_def)
      define sameType where "sameType = sameTypeOf ?h k"
      define res where "res = fold (step_cls tg k sameType) sameType (st, [])"
      obtain st' cvv where res: "res = (st', cvv)" by (cases res)
      have step: "step_classname tg k (st, cg) = (st', cg @ [?pt])"
        using nonempty False res by (simp add: step_classname_def Let_def sameType_def res_def)
      have mem: "r < length parsed \<and> parentType (parsed ! r) = ?pt" if "r \<in> set sameType" for r
        using that ptr [of r] len by (simp add: sameType_def sameTypeOf_mem)
      have nonmem: "r \<notin> set sameType" if "r < length parsed" "parentType (parsed ! r) \<noteq> ?pt" for r
        using that ptr [of r] len by (simp add: sameType_def sameTypeOf_mem)
      have same0: "?h ! r = parsed ! r" if "r \<in> set sameType" for r
        using mem [OF that] fresh new by simp
      have sb: "\<forall>r\<in>set sameType. r < length ?h" using mem len by simp
      have i1: "inner_inv ?h sameType (validated st) (troubles st) res"
        unfolding res_def using sb by (intro inner_fold inner_inv_init) simp_all
      have i2: "inner_inv2 ?pt ?h (validated st) res"
        unfolding res_def using sb k len
        by (intro inner_fold2 [where ?t0.0 = "troubles st"] inner_inv_init inner_inv2_init) simp_all
      from i1 have out: "\<forall>r. r \<notin> set sameType \<longrightarrow> heap st' ! r = ?h ! r"
        and val: "\<exists>ks. validated st' = validated st @ ks \<and> set ks \<subseteq> set sameType"
        unfolding res by (simp_all add: inner_inv_def)
      from val obtain ks where ks: "validated st' = validated st @ ks" "set ks \<subseteq> set sameType" by blast
      then have dks: "drop (length (validated st)) (validated st') = ks" by simp
      from i2 have sett_in: "settled_in ?pt ?h (heap st') ks"
        unfolding res using dks by (simp add: inner_inv2_def)
      have 1: "\<forall>r\<in>set (validated st'). parentType (parsed ! r) = '''' \<or> parentType (parsed ! r) \<in> set (cg @ [?pt])"
        using ks prov mem by auto
      have 2: "length (?F pt v w (validated st')) \<le> 1 \<or> quiet pt (heap st') (?F pt v w (validated st'))"
        if ne: "pt \<noteq> ''''" for pt v w
      proof (cases "pt = ?pt")
        case True
        have "?F pt v w (validated st) = []"
          using prov new nonempty True by (auto simp: filter_empty_conv)
        moreover have "?F pt v w ks = filter (\<lambda>r. variants (?h ! r) = v \<and> value' (?h ! r) = w) ks"
          using ks(2) mem same0 True by (intro filter_cong) auto
        ultimately have "?F pt v w (validated st') = filter (\<lambda>r. variants (?h ! r) = v \<and> value' (?h ! r) = w) ks"
          using ks(1) by simp
        with sett_in True show ?thesis by (simp add: settled_in_def)
      next
        case False
        have "?F pt v w ks = []" using ks(2) mem False by (auto simp: filter_empty_conv)
        then have eq: "?F pt v w (validated st') = ?F pt v w (validated st)" using ks(1) by simp
        have "codes (heap st') (?F pt v w (validated st)) = codes ?h (?F pt v w (validated st))"
        proof (rule codes_cong)
          fix r assume "r \<in> set (?F pt v w (validated st))"
          then have "r < length parsed" "parentType (parsed ! r) \<noteq> ?pt" using bound False by auto
          from nonmem [OF this] out show "heap st' ! r = ?h ! r" by simp
        qed
        then have "quiet pt (heap st') (?F pt v w (validated st)) = quiet pt ?h (?F pt v w (validated st))"
          by (intro quiet_cong) simp
        with sett [OF ne, of v w] show ?thesis unfolding eq by blast
      qed
      from 1 2 show ?thesis unfolding step by (simp add: outer_inv2_def)
    qed
  qed
qed

lemma outer_fold2:
  "k \<le> length parsed \<Longrightarrow>
   outer_inv2 parsed (fold (step_classname tg) [0..<k] (\<lparr>heap = parsed, validated = [], troubles = []\<rparr>, []))"
proof (induction k)
  case 0
  then show ?case by (simp add: outer_inv2_def)
next
  case (Suc k)
  let ?s = "fold (step_classname tg) [0..<k] (\<lparr>heap = parsed, validated = [], troubles = []\<rparr>, [])"
  obtain st cg where s: "?s = (st, cg)" by (cases ?s)
  from Suc have k: "k < length parsed" and 2: "outer_inv2 parsed (st, cg)" unfolding s [symmetric] by simp_all
  from k have 1: "outer_inv parsed k (st, cg)" using outer_fold [of k parsed tg] unfolding s by simp
  from 1 2 k have "outer_inv2 parsed (step_classname tg k (st, cg))" by (rule outer_step2)
  then show ?case by (simp add: s)
qed

lemma groupAndMerge_inv2:
  "\<exists>cg. outer_inv parsed (length parsed) (groupAndMerge tg parsed, cg) \<and>
        outer_inv2 parsed (groupAndMerge tg parsed, cg)"
proof -
  let ?s = "fold (step_classname tg) [0..<length parsed] (\<lparr>heap = parsed, validated = [], troubles = []\<rparr>, [])"
  have "outer_inv parsed (length parsed) ?s" by (rule outer_fold) simp
  moreover have "outer_inv2 parsed ?s" by (rule outer_fold2) simp
  moreover have "?s = (groupAndMerge tg parsed, snd ?s)" by (simp add: groupAndMerge_def)
  ultimately show ?thesis by metis
qed

section \<open>A run on what is at rest\<close>

lemma handleSet_quiet_troubles:
  assumes "length S \<le> 1 \<or> quiet (parentType (heap st ! c)) (heap st) S"
  shows "troubles (handleSet tg c cls S st) = troubles st \<or>
         (\<exists>pn. troubles (handleSet tg c cls S st) = troubles st @ [([], pn)])"
proof (cases "length S \<le> 1")
  case True
  then have "length S = 1 \<or> length S = 0" by linarith
  then show ?thesis by (auto simp: handleSet_def)
next
  case False
  with assms have q: "quiet (parentType (heap st ! c)) (heap st) S" by simp
  from False have "handleSet tg c cls S st = mergeSet tg (parentType (heap st ! c)) cls S st"
    by (cases S) (simp_all add: handleSet_def)
  with quiet_mergeSet [OF q, of tg cls] show ?thesis by simp
qed

lemma inner_step3:
  assumes inv: "inner_inv h0 sameType v0 t0 (st, cvv)"
    and inv3: "inner_inv3 t0 (st, cvv)"
    and cls: "cls \<in> set sameType"
    and bound: "\<forall>r\<in>set sameType. r < length h0"
    and c: "c < length h0"
    and rest: "\<forall>cls\<in>set sameType. length (sameVariantAndValue h0 sameType cls) \<le> 1 \<or>
                 quiet (parentType (h0 ! c)) h0 (sameVariantAndValue h0 sameType cls)"
  shows "inner_inv3 t0 (step_cls tg c sameType cls (st, cvv))"
proof -
  let ?key = "variants (h0 ! cls) @ value' (h0 ! cls)"
  let ?S = "sameVariantAndValue h0 sameType cls"
  let ?st' = "handleSet tg c cls ?S st"
  from step_cls_cases [OF inv cls bound, of tg c] show ?thesis
  proof (elim disjE conjE)
    assume "step_cls tg c sameType cls (st, cvv) = (st, cvv)"
    with inv3 show ?thesis by simp
  next
    assume step: "step_cls tg c sameType cls (st, cvv) = (?st', cvv @ [?key])"
      and Sfresh: "\<forall>r\<in>set ?S. heap st ! r = h0 ! r"
    from inv have kfeq: "map kf (heap st) = map kf h0"
      and tr: "\<exists>ts. troubles st = t0 @ ts \<and> (\<forall>t\<in>set ts. inner_good h0 sameType t)"
      by (simp_all add: inner_inv_def)
    from kfeq have len: "length (heap st) = length h0" by (metis length_map)
    from tr obtain ts where ts: "troubles st = t0 @ ts" by blast
    with inv3 have old: "\<forall>t\<in>set ts. fst t = []" by (simp add: inner_inv3_def)
    have pt: "parentType (heap st ! c) = parentType (h0 ! c)" using kf_nth(1) [OF kfeq, of c] c len by simp
    have "codes (heap st) ?S = codes h0 ?S" using Sfresh by (intro codes_cong) simp
    then have "quiet (parentType (h0 ! c)) (heap st) ?S = quiet (parentType (h0 ! c)) h0 ?S"
      by (intro quiet_cong) simp
    with rest cls have "length ?S \<le> 1 \<or> quiet (parentType (heap st ! c)) (heap st) ?S"
      unfolding pt by blast
    from handleSet_quiet_troubles [OF this, of tg cls]
    have "drop (length t0) (troubles ?st') = ts \<or> (\<exists>pn. drop (length t0) (troubles ?st') = ts @ [([], pn)])"
      using ts by auto
    with old show ?thesis unfolding step by (auto simp: inner_inv3_def)
  qed
qed

lemma inner_fold3:
  assumes "set xs \<subseteq> set sameType" "\<forall>r\<in>set sameType. r < length h0" "c < length h0"
    and "\<forall>cls\<in>set sameType. length (sameVariantAndValue h0 sameType cls) \<le> 1 \<or>
                 quiet (parentType (h0 ! c)) h0 (sameVariantAndValue h0 sameType cls)"
    and "inner_inv h0 sameType v0 t0 s" "inner_inv3 t0 s"
  shows "inner_inv3 t0 (fold (step_cls tg c sameType) xs s)"
  using assms
proof (induction xs arbitrary: s)
  case Nil
  then show ?case by simp
next
  case (Cons x xs)
  obtain st cvv where s: "s = (st, cvv)" by (cases s)
  from Cons.prems have x: "x \<in> set sameType" and xs: "set xs \<subseteq> set sameType" by simp_all
  have 1: "inner_inv h0 sameType v0 t0 (step_cls tg c sameType x s)"
    using Cons.prems(5) x Cons.prems(2) unfolding s by (rule inner_step)
  have 2: "inner_inv3 t0 (step_cls tg c sameType x s)"
    using Cons.prems(5,6) x Cons.prems(2,3,4) unfolding s by (rule inner_step3)
  from Cons.IH [OF xs Cons.prems(2,3,4) 1 2] show ?case by simp
qed

lemma sameTypeOf_cong:
  assumes "map kf h = map kf U" "k < length U"
  shows "sameTypeOf h k = sameTypeOf U k"
proof -
  from assms have len: "length h = length U" by (metis length_map)
  have "parentType (h ! r) = parentType (U ! r)" if "r < length U" for r
    using kf_nth(1) [OF assms(1), of r] that len by simp
  then show ?thesis unfolding sameTypeOf_def len using assms(2) by (intro filter_cong) auto
qed

lemma inner_inv3_init: "inner_inv3 (troubles st) (st, [])"
  by (simp add: inner_inv3_def)

lemma sameTypeOf_same:
  "parentType (U ! a) = parentType (U ! b) \<Longrightarrow> sameTypeOf U a = sameTypeOf U b"
  by (simp add: sameTypeOf_def)

lemma outer_step3:
  assumes inv: "outer_inv U k (st, cg)" and inv3: "outer_inv3 (st, cg)"
    and k: "k < length U" and rest: "at_rest U"
  shows "outer_inv3 (step_classname tg k (st, cg))"
proof -
  let ?h = "heap st"
  let ?pt = "parentType (?h ! k)"
  from inv have kfeq: "map kf ?h = map kf U"
    and fresh: "\<forall>r<length U. parentType (U ! r) \<notin> set cg \<longrightarrow> ?h ! r = U ! r"
    by (simp_all add: outer_inv_def)
  from kfeq have len: "length ?h = length U" by (metis length_map)
  have ptk: "?pt = parentType (U ! k)" using kf_nth(1) [OF kfeq, of k] k len by simp
  show ?thesis
  proof (cases "?pt = ''''")
    case True
    then have "step_classname tg k (st, cg) = (st\<lparr>validated := validated st @ [k]\<rparr>, cg)"
      by (simp add: step_classname_def Let_def)
    with inv3 show ?thesis by (simp add: outer_inv3_def)
  next
    case nonempty: False
    show ?thesis
    proof (cases "array_includes cg ?pt")
      case True
      then have "step_classname tg k (st, cg) = (st, cg)"
        using nonempty by (simp add: step_classname_def Let_def)
      with inv3 show ?thesis by simp
    next
      case False
      then have new: "?pt \<notin> set cg" by (simp add: array_includes_def)
      define sameType where "sameType = sameTypeOf ?h k"
      define res where "res = fold (step_cls tg k sameType) sameType (st, [])"
      obtain st' cvv where res: "res = (st', cvv)" by (cases res)
      have step: "step_classname tg k (st, cg) = (st', cg @ [?pt])"
        using nonempty False res by (simp add: step_classname_def Let_def sameType_def res_def)
      have sT: "sameType = sameTypeOf U k" unfolding sameType_def using kfeq k by (rule sameTypeOf_cong)
      have mem: "r < length U \<and> parentType (U ! r) = parentType (U ! k)" if "r \<in> set sameType" for r
        using that unfolding sT by (simp add: sameTypeOf_mem)
      have same0: "?h ! r = U ! r" if "r \<in> set sameType" for r
        using mem [OF that] fresh new ptk by simp
      have sb: "\<forall>r\<in>set sameType. r < length ?h" using mem len by simp
      have q: "\<forall>cls\<in>set sameType. length (sameVariantAndValue ?h sameType cls) \<le> 1 \<or>
                 quiet (parentType (?h ! k)) ?h (sameVariantAndValue ?h sameType cls)"
      proof
        fix cls assume cls: "cls \<in> set sameType"
        let ?S = "sameVariantAndValue U (sameTypeOf U cls) cls"
        from mem [OF cls] have c: "cls < length U" "parentType (U ! cls) = parentType (U ! k)" by simp_all
        have S: "sameVariantAndValue ?h sameType cls = ?S"
          using sameVariantAndValue_cong [OF kfeq, of sameType cls] mem cls
            sameTypeOf_same [OF c(2)] sT by simp
        have "set ?S \<subseteq> set sameType"
          using sameTypeOf_same [OF c(2)] sT by (auto simp: sameVariantAndValue_mem)
        then have "codes ?h ?S = codes U ?S" using same0 by (intro codes_cong) blast
        then have "quiet (parentType (U ! cls)) ?h ?S = quiet (parentType (U ! cls)) U ?S"
          by (intro quiet_cong) simp
        moreover have "parentType (U ! cls) \<noteq> ''''" using c(2) nonempty ptk by simp
        with rest c(1) have "length ?S \<le> 1 \<or> quiet (parentType (U ! cls)) U ?S"
          unfolding at_rest_def by blast
        ultimately show "length (sameVariantAndValue ?h sameType cls) \<le> 1 \<or>
                 quiet (parentType (?h ! k)) ?h (sameVariantAndValue ?h sameType cls)"
          unfolding S ptk c(2) by blast
      qed
      have "inner_inv3 (troubles st) res"
        unfolding res_def using sb k len q
        by (intro inner_fold3 [where ?h0.0 = ?h and ?v0.0 = "validated st"] inner_inv_init inner_inv3_init)
           simp_all
      moreover have "inner_inv ?h sameType (validated st) (troubles st) res"
        unfolding res_def using sb by (intro inner_fold inner_inv_init) simp_all
      ultimately have d: "\<forall>t\<in>set (drop (length (troubles st)) (troubles st')). fst t = []"
        and "\<exists>ts. troubles st' = troubles st @ ts \<and> (\<forall>t\<in>set ts. inner_good ?h sameType t)"
        unfolding res by (simp_all add: inner_inv3_def inner_inv_def)
      then obtain ts where ts: "troubles st' = troubles st @ ts" by blast
      with d have "\<forall>t\<in>set ts. fst t = []" by simp
      moreover from inv3 have "\<forall>t\<in>set (troubles st). fst t = []" by (simp add: outer_inv3_def)
      ultimately have "\<forall>t\<in>set (troubles st'). fst t = []" unfolding ts by (metis Un_iff set_append)
      then show ?thesis unfolding step by (simp add: outer_inv3_def)
    qed
  qed
qed

lemma outer_fold3:
  "at_rest U \<Longrightarrow> k \<le> length U \<Longrightarrow>
   outer_inv3 (fold (step_classname tg) [0..<k] (\<lparr>heap = U, validated = [], troubles = []\<rparr>, []))"
proof (induction k)
  case 0
  then show ?case by (simp add: outer_inv3_def)
next
  case (Suc k)
  let ?s = "fold (step_classname tg) [0..<k] (\<lparr>heap = U, validated = [], troubles = []\<rparr>, [])"
  obtain st cg where s: "?s = (st, cg)" by (cases ?s)
  from Suc have k: "k < length U" and 3: "outer_inv3 (st, cg)" unfolding s [symmetric] by simp_all
  from k have 1: "outer_inv U k (st, cg)" using outer_fold [of k U tg] unfolding s by simp
  from 1 3 k Suc.prems(1) have "outer_inv3 (step_classname tg k (st, cg))" by (rule outer_step3)
  then show ?case by (simp add: s)
qed

lemma at_rest_no_names:
  assumes "at_rest U"
  shows "\<forall>t\<in>set (troubles (groupAndMerge tg U)). fst t = []"
proof -
  from outer_fold3 [OF assms, of "length U" tg] show ?thesis
    by (simp add: groupAndMerge_def outer_inv3_def split: prod.splits)
qed

section \<open>What a run validates is at rest\<close>

lemma filter_positions:
  "map (\<lambda>i. xs ! i) (filter (\<lambda>i. Q (xs ! i)) [0..<length xs]) = filter Q xs"
proof -
  have "filter Q xs = filter Q (map (\<lambda>i. xs ! i) [0..<length xs])" by (simp add: map_nth)
  also have "\<dots> = map (\<lambda>i. xs ! i) (filter (\<lambda>i. Q (xs ! i)) [0..<length xs])"
    by (simp add: filter_map comp_def)
  finally show ?thesis by simp
qed

lemma validated_at_rest: "at_rest (validatedObjects (groupAndMerge tg parsed))"
  unfolding at_rest_def
proof (intro allI impI)
  let ?st = "groupAndMerge tg parsed"
  let ?h = "heap ?st" and ?vs = "validated ?st"
  let ?V = "validatedObjects ?st"
  fix cls assume cls: "cls < length ?V" and ne: "parentType (?V ! cls) \<noteq> ''''"
  let ?pt = "parentType (?V ! cls)" and ?v = "variants (?V ! cls)" and ?w = "value' (?V ! cls)"
  let ?S = "sameVariantAndValue ?V (sameTypeOf ?V cls) cls"
  let ?Q = "\<lambda>r. parentType (?h ! r) = ?pt \<and> variants (?h ! r) = ?v \<and> value' (?h ! r) = ?w"
  from groupAndMerge_inv2 obtain cg where inv: "outer_inv parsed (length parsed) (?st, cg)"
    and inv2: "outer_inv2 parsed (?st, cg)" by blast
  from inv have kfeq: "map kf ?h = map kf parsed"
    and bound: "\<forall>r\<in>set ?vs. r < length parsed"
    by (simp_all add: outer_inv_def)
  from kfeq have len: "length ?h = length parsed" by (metis length_map)
  have lenV: "length ?V = length ?vs" by (simp add: validatedObjects_def)
  have V: "?V ! i = ?h ! (?vs ! i)" if "i < length ?vs" for i
    using that by (simp add: validatedObjects_def)
  have S: "?S = filter (\<lambda>i. ?Q (?vs ! i)) [0..<length ?vs]"
    unfolding sameVariantAndValue_def sameTypeOf_def filter_filter lenV
    using V by (intro filter_cong) auto
  have F: "filter (\<lambda>r. parentType (parsed ! r) = ?pt \<and> variants (parsed ! r) = ?v \<and>
                        value' (parsed ! r) = ?w) ?vs = filter ?Q ?vs"
  proof (rule filter_cong [OF refl])
    fix r assume "r \<in> set ?vs"
    with bound len have "r < length ?h" by simp
    from kf_nth [OF kfeq this]
    show "(parentType (parsed ! r) = ?pt \<and> variants (parsed ! r) = ?v \<and> value' (parsed ! r) = ?w) = ?Q r"
      by simp
  qed
  have pos: "map (\<lambda>i. ?vs ! i) ?S = filter ?Q ?vs" unfolding S by (rule filter_positions)
  from inv2 ne have sett: "length (filter ?Q ?vs) \<le> 1 \<or> quiet ?pt ?h (filter ?Q ?vs)"
    unfolding F [symmetric] by (simp add: outer_inv2_def)
  have lenS: "length ?S = length (filter ?Q ?vs)" using pos by (metis length_map)
  have "codes ?V ?S = map (\<lambda>i. shorthand (?h ! (?vs ! i))) ?S"
    unfolding codes_def S using V by (intro map_cong) auto
  also have "\<dots> = codes ?h (map (\<lambda>i. ?vs ! i) ?S)" by (simp add: codes_def comp_def)
  finally have "codes ?V ?S = codes ?h (filter ?Q ?vs)" unfolding pos .
  then have "quiet ?pt ?V ?S = quiet ?pt ?h (filter ?Q ?vs)" by (intro quiet_cong) simp
  with sett lenS show "length ?S \<le> 1 \<or> quiet ?pt ?V ?S" by simp
qed

lemma second_run_no_names:
  "\<forall>t\<in>set (troubles (groupAndMerge tg (validatedObjects (groupAndMerge tg parsed)))). fst t = []"
  using validated_at_rest by (rule at_rest_no_names)

lemma second_run_no_reports:
  "reports (analyseParsed tg seg isSingle beforeWs afterWs (validatedObjects (groupAndMerge tg parsed))) = []"
proof -
  have "filter (\<lambda>t. length (fst t) \<noteq> 0)
          (troubles (groupAndMerge tg (validatedObjects (groupAndMerge tg parsed)))) = []"
    using second_run_no_names [of tg parsed] by (simp add: filter_empty_conv)
  then show ?thesis by (simp add: reports_analyseParsed reportTroubles_def Let_def)
qed

text \<open>Being at rest is a matter of the families, codes, variants and values alone.\<close>

lemma descriptor_nth:
  assumes "map descriptor U = map descriptor U'" "r < length U"
  shows "parentType (U ! r) = parentType (U' ! r)" "shorthand (U ! r) = shorthand (U' ! r)"
        "variants (U ! r) = variants (U' ! r)" "value' (U ! r) = value' (U' ! r)"
proof -
  from assms have "length U' = length U" by (metis length_map)
  with assms have "descriptor (U ! r) = descriptor (U' ! r)" by (metis nth_map)
  then show "parentType (U ! r) = parentType (U' ! r)" "shorthand (U ! r) = shorthand (U' ! r)"
        "variants (U ! r) = variants (U' ! r)" "value' (U ! r) = value' (U' ! r)"
    by (simp_all add: descriptor_def)
qed

lemma at_rest_cong:
  assumes eq: "map descriptor U = map descriptor U'" and rest: "at_rest U"
  shows "at_rest U'"
  unfolding at_rest_def
proof (intro allI impI)
  fix cls assume cls': "cls < length U'" and ne: "parentType (U' ! cls) \<noteq> ''''"
  from eq have len: "length U' = length U" by (metis length_map)
  from cls' len have cls: "cls < length U" by simp
  note f = descriptor_nth [OF eq]
  have T: "sameTypeOf U' cls = sameTypeOf U cls"
    unfolding sameTypeOf_def len using f(1) cls by (intro filter_cong) auto
  have Tb: "\<forall>r\<in>set (sameTypeOf U cls). r < length U" by (simp add: sameTypeOf_mem)
  have S: "sameVariantAndValue U' (sameTypeOf U cls) cls = sameVariantAndValue U (sameTypeOf U cls) cls"
    unfolding sameVariantAndValue_def using f(3,4) cls Tb by (intro filter_cong) auto
  let ?S = "sameVariantAndValue U (sameTypeOf U cls) cls"
  have "set ?S \<subseteq> set (sameTypeOf U cls)" by (auto simp: sameVariantAndValue_mem)
  with Tb have "codes U' ?S = codes U ?S"
    unfolding codes_def using f(2) by (intro map_cong) auto
  then have q: "quiet (parentType (U ! cls)) U' ?S = quiet (parentType (U ! cls)) U ?S"
    by (intro quiet_cong) simp
  from ne f(1) [OF cls] have "parentType (U ! cls) \<noteq> ''''" by simp
  with rest cls have "length ?S \<le> 1 \<or> quiet (parentType (U ! cls)) U ?S"
    unfolding at_rest_def by blast
  with q show "length (sameVariantAndValue U' (sameTypeOf U' cls) cls) \<le> 1 \<or>
        quiet (parentType (U' ! cls)) U' (sameVariantAndValue U' (sameTypeOf U' cls) cls)"
    unfolding T S f(1) [OF cls, symmetric] by blast
qed

lemma at_rest_no_reports:
  assumes "at_rest U"
  shows "reports (analyseParsed tg seg isSingle beforeWs afterWs U) = []"
proof -
  have "filter (\<lambda>t. length (fst t) \<noteq> 0) (troubles (groupAndMerge tg U)) = []"
    using at_rest_no_names [OF assms, of tg] by (simp add: filter_empty_conv)
  then show ?thesis by (simp add: reports_analyseParsed reportTroubles_def Let_def)
qed

section \<open>The resolver of the specification and the branches of the code\<close>








lemma both_axes_covered:
  "axis_covered corners cs ''x'' \<Longrightarrow> axis_covered corners cs ''y'' \<Longrightarrow> all_covered corners cs"
  by (simp add: all_covered_def)




section \<open>The claims\<close>

text \<open>
  C1. A report is made only for a merge that subsumed at least one class name, and only
  when the assembled text differs from the original text, trimmed in a segment of one
  line and as it is otherwise. Every report of a segment comes from a trouble of the
  segment whose list of names is not empty, the assembled text of line 306 differs from
  the original, and there are no more reports than troubles with a name.
\<close>

theorem report_only_for_a_merge_that_changes_the_text:
  assumes "r \<in> set (reports (analyseParsed tg seg isSingle beforeWs afterWs parsed))"
  shows "(\<exists>t\<in>set (troubles (groupAndMerge tg parsed)).
            fst t \<noteq> [] \<and> classnames r = join '', '' (fst t) \<and> shorthand_name r = snd t) \<and>
         assemble isSingle beforeWs afterWs (validatedObjects (groupAndMerge tg parsed))
           \<noteq> (if isSingle then trim_string (originalClassNamesValue seg)
               else originalClassNamesValue seg) \<and>
         length (reports (analyseParsed tg seg isSingle beforeWs afterWs parsed))
           \<le> length (filter (\<lambda>t. fst t \<noteq> []) (troubles (groupAndMerge tg parsed)))"
proof -
  let ?st = "groupAndMerge tg parsed"
  let ?v = "assemble isSingle beforeWs afterWs (validatedObjects ?st)"
  let ?op = "if isSingle then trim_string (originalClassNamesValue seg) else originalClassNamesValue seg"
  let ?ts = "filter (\<lambda>t. fst t \<noteq> []) (troubles ?st)"
  have rep: "reports (analyseParsed tg seg isSingle beforeWs afterWs parsed) = fst (forEach_issue ?op seg ?ts ?v)"
    by (simp add: reports_analyseParsed reportTroubles_def Let_def)
  from assms have mem: "r \<in> set (fst (forEach_issue ?op seg ?ts ?v))" unfolding rep .
  from forEach_issue_sources [OF mem] obtain t where t: "t \<in> set ?ts"
    and cs: "classnames r = join '', '' (fst t)" "shorthand_name r = snd t" by blast
  from t have "t \<in> set (troubles ?st)" "fst t \<noteq> []" by simp_all
  with cs have 1: "\<exists>t\<in>set (troubles ?st). fst t \<noteq> [] \<and> classnames r = join '', '' (fst t) \<and> shorthand_name r = snd t"
    by blast
  have 2: "?v \<noteq> ?op"
  proof
    assume "?v = ?op"
    then have "fst (forEach_issue ?op seg ?ts ?v) = []" by (simp add: forEach_issue_same)
    with mem show False by simp
  qed
  have 3: "length (fst (forEach_issue ?op seg ?ts ?v)) \<le> length ?ts" by (rule forEach_issue_length)
  from 1 2 3 show ?thesis unfolding rep by blast
qed

theorem report_only_for_a_merge_that_changes_the_text_witness:
  "\<lparr>classnames = ''mt-3, mb-3'', shorthand_name = ''my-3'', fix_range = (1, 10), fix_text = ''my-3''\<rparr>
     \<in> set (reports (analyseParsed exampleGroups (literalSegment ''mt-3 mb-3'') True None None
                       [margin ''t'' ''3'', margin ''b'' ''3''])) \<and>
   assemble True None None (validatedObjects (groupAndMerge exampleGroups [margin ''t'' ''3'', margin ''b'' ''3'']))
     \<noteq> trim_string (originalClassNamesValue (literalSegment ''mt-3 mb-3''))"
proof -
  have h: "\<lparr>classnames = ''mt-3, mb-3'', shorthand_name = ''my-3'', fix_range = (1, 10), fix_text = ''my-3''\<rparr>
     \<in> set (reports (analyseParsed exampleGroups (literalSegment ''mt-3 mb-3'') True None None
                       [margin ''t'' ''3'', margin ''b'' ''3'']))"
    by code_simp
  from report_only_for_a_merge_that_changes_the_text [OF h] h show ?thesis by simp
qed

text \<open>
  C2. All reports of one location are to carry one replacement text, the prefix, the
  assembled class names and the suffix. In the template element \<^verbatim>\<open>`mt-1 mb-1 ml-2 mr-2`\<close>
  two merges are reported. Line 315 puts the prefix and the suffix around the variable at
  every report, so the text is \<^verbatim>\<open>`my-1 mx-2`\<close> at the first report and
  \<^verbatim>\<open>``my-1 mx-2``\<close> at the second and at the end, which is neither the text of the
  first report nor the prefix, the class names and the suffix.
\<close>

theorem template_fix_text_repeats_affixes:
  "map fix_text (reports (analyseParsed exampleGroups (templateSegment ''mt-1 mb-1 ml-2 mr-2'') True None None
          [margin ''t'' ''1'', margin ''b'' ''1'', margin ''l'' ''2'', margin ''r'' ''2'']))
     = [''`my-1 mx-2`'', ''``my-1 mx-2``''] \<and>
   final_text (analyseParsed exampleGroups (templateSegment ''mt-1 mb-1 ml-2 mr-2'') True None None
          [margin ''t'' ''1'', margin ''b'' ''1'', margin ''l'' ''2'', margin ''r'' ''2''])
     = ''``my-1 mx-2``'' \<and>
   prefix (templateSegment ''mt-1 mb-1 ml-2 mr-2'') @
     assemble True None None (validatedObjects (groupAndMerge exampleGroups
          [margin ''t'' ''1'', margin ''b'' ''1'', margin ''l'' ''2'', margin ''r'' ''2''])) @
     suffix (templateSegment ''mt-1 mb-1 ml-2 mr-2'')
     = ''`my-1 mx-2`''"
  by code_simp



text \<open>
  C4. Merging is to change nothing of what is styled. The class names \<^verbatim>\<open>mt-3 ml-3 mr-3\<close>
  merge along the axis x; \<open>cls\<close> is the first member, \<^verbatim>\<open>mt-3\<close>, which is also the one
  member of \<^verbatim>\<open>toBeKept\<close>. Lines 258 and 259 overwrite it, and \<^verbatim>\<open>validated\<close> holds it
  twice: the output is \<^verbatim>\<open>mx-3 mx-3\<close>, and the top margin is no longer styled.
\<close>

theorem kept_side_overwritten:
  "map name (validatedObjects (groupAndMerge exampleGroups
      [margin ''t'' ''3'', margin ''l'' ''3'', margin ''r'' ''3''])) = [''mx-3'', ''mx-3''] \<and>
   (''Margin'', '''', ''3'', ''t'') \<in> styled [margin ''t'' ''3'', margin ''l'' ''3'', margin ''r'' ''3''] \<and>
   (''Margin'', '''', ''3'', ''t'') \<notin> styled (validatedObjects (groupAndMerge exampleGroups
      [margin ''t'' ''3'', margin ''l'' ''3'', margin ''r'' ''3'']))"
  by code_simp

text \<open>
  C5. Three of the four corners are to become the side two of them share and the third
  corner, untouched. \<^verbatim>\<open>rounded-tl-lg rounded-tr-lg rounded-bl-lg\<close> becomes
  \<^verbatim>\<open>rounded-t-lg rounded-bl-lg\<close>, as the specification says. With the third corner
  first, \<^verbatim>\<open>rounded-bl-lg rounded-tl-lg rounded-tr-lg\<close>, the corner to keep is \<open>cls\<close>
  itself: lines 282 and 283 overwrite it and the output is \<^verbatim>\<open>rounded-t-lg rounded-t-lg\<close>.
\<close>

theorem three_corners_first_kept_overwritten:
  "map name (validatedObjects (groupAndMerge exampleGroups [rounded ''tl'', rounded ''tr'', rounded ''bl'']))
     = [''rounded-t-lg'', ''rounded-bl-lg''] \<and>
   map name (validatedObjects (groupAndMerge exampleGroups [rounded ''bl'', rounded ''tl'', rounded ''tr'']))
     = [''rounded-t-lg'', ''rounded-t-lg'']"
  by code_simp

text \<open>
  C6. Class names that are merged together have the same family, the same variants and
  the same value. For every trouble of a list of parsed class names, the names it
  subsumes are the names of parsed objects \<open>I\<close>, its new name is made from a parsed object
  \<open>rep\<close>, and all of these have the \<^verbatim>\<open>parentType\<close>, the \<^verbatim>\<open>variants\<close> and the
  \<^verbatim>\<open>value\<close> of \<open>rep\<close>, and so of each other.
\<close>

theorem merged_names_share_family_variants_value:
  assumes "t \<in> set (troubles (groupAndMerge tg parsed))"
  shows "\<exists>I rep body.
           (\<forall>i\<in>set I. i < length parsed) \<and> rep < length parsed \<and>
           fst t = map (\<lambda>i. name (parsed ! i)) I \<and> snd t = patchedName (parsed ! rep) body \<and>
           (\<forall>i\<in>set I. parentType (parsed ! i) = parentType (parsed ! rep) \<and>
                       variants (parsed ! i) = variants (parsed ! rep) \<and>
                       value' (parsed ! i) = value' (parsed ! rep)) \<and>
           (\<forall>i\<in>set I. \<forall>j\<in>set I. parentType (parsed ! i) = parentType (parsed ! j) \<and>
                       variants (parsed ! i) = variants (parsed ! j) \<and>
                       value' (parsed ! i) = value' (parsed ! j))"
proof -
  from troubles_good [OF assms] obtain I rep body where
    a: "\<forall>i\<in>set I. i < length parsed" "rep < length parsed"
       "fst t = map (\<lambda>i. name (parsed ! i)) I" "snd t = patchedName (parsed ! rep) body"
    and b: "\<forall>i\<in>set I. parentType (parsed ! i) = parentType (parsed ! rep) \<and>
                       variants (parsed ! i) = variants (parsed ! rep) \<and>
                       value' (parsed ! i) = value' (parsed ! rep)"
    unfolding good_trouble_def by blast
  from b have c: "\<forall>i\<in>set I. \<forall>j\<in>set I. parentType (parsed ! i) = parentType (parsed ! j) \<and>
                       variants (parsed ! i) = variants (parsed ! j) \<and>
                       value' (parsed ! i) = value' (parsed ! j)" by simp
  from a b c show ?thesis by blast
qed

theorem merged_names_share_family_variants_value_witness:
  "([''mt-3'', ''mb-3''], ''my-3'') \<in> set (troubles (groupAndMerge exampleGroups
        [margin ''t'' ''3'', margin ''b'' ''4'', margin ''b'' ''3''])) \<and>
   (\<exists>I rep. [''mt-3'', ''mb-3''] = map (\<lambda>i. name ([margin ''t'' ''3'', margin ''b'' ''4'', margin ''b'' ''3''] ! i)) I \<and>
      (\<forall>i\<in>set I. value' ([margin ''t'' ''3'', margin ''b'' ''4'', margin ''b'' ''3''] ! i)
                    = value' ([margin ''t'' ''3'', margin ''b'' ''4'', margin ''b'' ''3''] ! rep)))"
proof -
  have h: "([''mt-3'', ''mb-3''], ''my-3'') \<in> set (troubles (groupAndMerge exampleGroups
        [margin ''t'' ''3'', margin ''b'' ''4'', margin ''b'' ''3'']))"
    by code_simp
  from merged_names_share_family_variants_value [OF h] obtain I rep body where
    "fst ([''mt-3'', ''mb-3''], ''my-3'') = map (\<lambda>i. name ([margin ''t'' ''3'', margin ''b'' ''4'', margin ''b'' ''3''] ! i)) I"
    "\<forall>i\<in>set I. value' ([margin ''t'' ''3'', margin ''b'' ''4'', margin ''b'' ''3''] ! i)
                    = value' ([margin ''t'' ''3'', margin ''b'' ''4'', margin ''b'' ''3''] ! rep)"
    by blast
  then have "[''mt-3'', ''mb-3''] = map (\<lambda>i. name ([margin ''t'' ''3'', margin ''b'' ''4'', margin ''b'' ''3''] ! i)) I \<and>
      (\<forall>i\<in>set I. value' ([margin ''t'' ''3'', margin ''b'' ''4'', margin ''b'' ''3''] ! i)
                    = value' ([margin ''t'' ''3'', margin ''b'' ''4'', margin ''b'' ''3''] ! rep))"
    unfolding fst_conv by (rule conjI)
  then have "\<exists>I rep. [''mt-3'', ''mb-3''] = map (\<lambda>i. name ([margin ''t'' ''3'', margin ''b'' ''4'', margin ''b'' ''3''] ! i)) I \<and>
      (\<forall>i\<in>set I. value' ([margin ''t'' ''3'', margin ''b'' ''4'', margin ''b'' ''3''] ! i)
                    = value' ([margin ''t'' ''3'', margin ''b'' ''4'', margin ''b'' ''3''] ! rep))"
    by (intro exI)
  with h show ?thesis by (rule conjI)
qed




text \<open>
  C8. A second run reports nothing more. The second run is on a segment that reads back the
  objects the first run validated, which is what the replacement text, made of their
  names, is for a parser that maps a name to its descriptor. Every set the first run
  leaves is at rest: the branch the merge takes for it subsumes no name, so no trouble of
  the second run passes the filter of line 311, nothing is reported and no fix changes
  the text.
\<close>

theorem second_run_reports_nothing:
  assumes "readsBack getClassNames isSingleLine parseClassname seg2
             (validatedObjects (groupAndMerge tg parsed))"
  shows "reports (parseForShorthandCandidates getClassNames isSingleLine parseClassname tg seg2) = []"
proof -
  let ?isSingle = "isSingleLine (originalClassNamesValue seg2)"
  let ?P = "parsedOf getClassNames isSingleLine parseClassname seg2"
  from assms have "map descriptor (validatedObjects (groupAndMerge tg parsed)) = map descriptor ?P"
    by (simp add: readsBack_def)
  then have rest: "at_rest ?P" using validated_at_rest by (rule at_rest_cong)
  obtain b a cs where sa: "setAside ?isSingle (getClassNames (originalClassNamesValue seg2) (trim seg2)) = (b, a, cs)"
    by (cases "setAside ?isSingle (getClassNames (originalClassNamesValue seg2) (trim seg2))")
  then have P: "?P = map (\<lambda>(className, index). parseClassname className index) (zip cs [0..<length cs])"
    by (simp add: parsedOf_def)
  show ?thesis
  proof (cases "length cs \<le> 1")
    case True
    with sa show ?thesis by (simp add: parseForShorthandCandidates_def)
  next
    case False
    with sa have "parseForShorthandCandidates getClassNames isSingleLine parseClassname tg seg2
        = analyseParsed tg seg2 ?isSingle b a ?P"
      by (simp add: parseForShorthandCandidates_def P)
    then show ?thesis using rest by (simp add: at_rest_no_reports)
  qed
qed

theorem second_run_reports_nothing_witness:
  "map fix_text (reports (parseForShorthandCandidates exampleTokens (\<lambda>s. True) exampleParse exampleGroups
        (literalSegment ''mt-3 mb-3 ml-4 mr-4''))) = [''my-3 mx-4'', ''my-3 mx-4''] \<and>
   readsBack exampleTokens (\<lambda>s. True) exampleParse (literalSegment ''my-3 mx-4'')
     (validatedObjects (groupAndMerge exampleGroups
        (parsedOf exampleTokens (\<lambda>s. True) exampleParse (literalSegment ''mt-3 mb-3 ml-4 mr-4'')))) \<and>
   reports (parseForShorthandCandidates exampleTokens (\<lambda>s. True) exampleParse exampleGroups
        (literalSegment ''my-3 mx-4'')) = []"
proof -
  have f: "map fix_text (reports (parseForShorthandCandidates exampleTokens (\<lambda>s. True) exampleParse exampleGroups
        (literalSegment ''mt-3 mb-3 ml-4 mr-4''))) = [''my-3 mx-4'', ''my-3 mx-4'']"
    by code_simp
  have h: "readsBack exampleTokens (\<lambda>s. True) exampleParse (literalSegment ''my-3 mx-4'')
     (validatedObjects (groupAndMerge exampleGroups
        (parsedOf exampleTokens (\<lambda>s. True) exampleParse (literalSegment ''mt-3 mb-3 ml-4 mr-4''))))"
    by code_simp
  from f h second_run_reports_nothing [OF h] show ?thesis by simp
qed

text \<open>
  C9. The lookup of a body returns the empty text when the groups have no entry of the
  family for the code (\<open>getBody_absent\<close>), and an empty body is to mean that nothing can be
  merged. The callers of the lookup do not test the body. Tailwind CSS has no border
  radius class for an axis, so the lookup of \<^verbatim>\<open>x\<close> for \<^verbatim>\<open>Border Radius\<close> is empty; yet
  for \<^verbatim>\<open>rounded-l-lg rounded-r-lg\<close> the flags of lines 222 to 226 find the axis x, lines
  242 to 245 make the name \<^verbatim>\<open>-lg\<close> from the empty body, both class names are reported
  with \<^verbatim>\<open>-lg\<close> as their shorthand, and the text of the fix is \<^verbatim>\<open>-lg\<close>. The two other
  sides, \<^verbatim>\<open>rounded-t-lg rounded-b-lg\<close>, merge into \<^verbatim>\<open>rounded-lg\<close>, since the top and the
  bottom side count for their corners and the left and the right side do not.
\<close>

theorem empty_body_name_synthesized:
  "getBodyByShorthand exampleGroups ''Border Radius'' ''x'' = '''' \<and>
   troubles (groupAndMerge exampleGroups [rounded ''l'', rounded ''r''])
     = [([''rounded-l-lg'', ''rounded-r-lg''], ''-lg'')] \<and>
   map name (validatedObjects (groupAndMerge exampleGroups [rounded ''l'', rounded ''r''])) = [''-lg''] \<and>
   map (\<lambda>r. (classnames r, shorthand_name r, fix_text r))
     (reports (analyseParsed exampleGroups (literalSegment ''rounded-l-lg rounded-r-lg'') True None None
                 [rounded ''l'', rounded ''r'']))
     = [(''rounded-l-lg, rounded-r-lg'', ''-lg'', ''-lg'')] \<and>
   troubles (groupAndMerge exampleGroups [rounded ''t'', rounded ''b''])
     = [([''rounded-t-lg'', ''rounded-b-lg''], ''rounded-lg'')]"
  by code_simp

text \<open>
  C10. When at most one class name is left after the white space at both ends of a
  segment of several lines is set aside, the analysis returns at line 182: whatever the
  parser is, nothing is parsed and nothing is reported.
\<close>

theorem early_return:
  assumes "length (snd (snd (setAside (isSingleLine (originalClassNamesValue seg))
                                (getClassNames (originalClassNamesValue seg) (trim seg))))) \<le> 1"
  shows "parseForShorthandCandidates getClassNames isSingleLine parseClassname tg seg
           = \<lparr>parsed_objects = [], reports = [], final_text = ''''\<rparr>"
  using assms by (auto simp: parseForShorthandCandidates_def Let_def split: prod.splits)

theorem early_return_witness:
  "length (snd (snd (setAside False [[], ''mt-3'', []]))) \<le> 1 \<and>
   parseForShorthandCandidates (\<lambda>s t. [[], ''mt-3'', []]) (\<lambda>s. False) (\<lambda>s i. margin ''t'' ''3'')
       exampleGroups (templateSegment [CHR 0x0A, CHR ''m'', CHR ''t'', CHR ''-'', CHR ''3'', CHR 0x0A])
     = \<lparr>parsed_objects = [], reports = [], final_text = ''''\<rparr>"
proof -
  have h: "length (snd (snd (setAside False [[], ''mt-3'', []]))) \<le> 1"
    by (simp add: setAside_def shiftBefore_def popAfter_def spacesOnly_def)
  from h early_return [of "\<lambda>s. False" _ "\<lambda>s t. [[], ''mt-3'', []]"] show ?thesis by simp
qed

end
